theory Spec2Isabelle
  imports Main "HOL-Library.Word" "HOL-Library.Sublist"
begin

section \<open>Opcodes, bytes and the encoder\<close>

text \<open>
  The compiler of \<^verbatim>\<open>src/checker/compiler.h\<close> writes opcodes and their parameters into
  byte vectors. The opcode enumeration \<^verbatim>\<open>instructions::OP\<close>, the error codes and the hash of
  a storage entry are declared in headers the compiler only includes; the compiler needs
  the identity of an opcode and nothing else, so the numbering is a parameter of the model
  (the record \<open>Contract\<close>), and every theorem holds for each numbering.
\<close>

type_synonym byte = "8 word"

datatype OP =
    OP_Noop | OP_Jump | OP_Halt | OP_SourceMap | OP_Main | OP_Subroutine
  | OP_Never | OP_Any | OP_Unknown | OP_Null | OP_Undefined
  | OP_String | OP_Number | OP_Boolean | OP_True | OP_False
  | OP_StringLiteral | OP_NumberLiteral | OP_BigIntLiteral
  | OP_Frame | OP_FrameEnd | OP_FrameReturnJump | OP_Return
  | OP_Call | OP_TailCall | OP_Rest | OP_RestReuse
  | OP_Union | OP_Intersection | OP_Class | OP_ObjectLiteral | OP_Tuple | OP_TupleMember
  | OP_Array | OP_Length | OP_IndexAccess | OP_TemplateLiteral
  | OP_Loads | OP_Parameter | OP_Optional | OP_Readonly | OP_Initializer
  | OP_TypeArgument | OP_TypeArgumentDefault | OP_Function | OP_FunctionRef
  | OP_PropertySignature | OP_Instantiate | OP_CallExpression
  | OP_Distribute | OP_Extends | OP_JumpCondition
  | OP_Set | OP_Assign | OP_Widen | OP_Error

datatype ErrorCode = CannotFind

text \<open>
  What the source does not determine is in the same record. The member
  \<^verbatim>\<open>isBlockTailCall\<close> of \<^verbatim>\<open>Section\<close> has no initialiser and \<^verbatim>\<open>optimise\<close> reads it:
  \<open>indeterminate vm i j\<close> is the value that member holds, when the section is constructed,
  in the section at position \<open>j\<close> of the subroutine with index \<open>i\<close>. A theorem stated
  for every contract holds for every such value.
\<close>

record Contract =
  opcode :: "OP \<Rightarrow> byte"
  errorCode :: "ErrorCode \<Rightarrow> 32 word"
  runtime_hash :: "string \<Rightarrow> 64 word"
  indeterminate :: "nat \<Rightarrow> nat \<Rightarrow> bool"

text \<open>
  Modelled from the spec: \<^verbatim>\<open>vm::writeUint16\<close>, \<^verbatim>\<open>vm::writeUint32\<close>, \<^verbatim>\<open>vm::writeInt32\<close> and
  \<^verbatim>\<open>vm::writeUint64\<close> of \<^verbatim>\<open>utils.h\<close> are not among the sources. The spec (4.A) has them
  store a value little-endian either at the current end of the buffer, which grows, or at
  an earlier offset, which is overwritten in place. \<open>write_at\<close> does both; an offset past
  the end pads with zero bytes.
\<close>

definition u16_bytes :: "16 word \<Rightarrow> byte list" where
  "u16_bytes w = [ucast w, ucast (drop_bit 8 w)]"

definition u32_bytes :: "32 word \<Rightarrow> byte list" where
  "u32_bytes w = [ucast w, ucast (drop_bit 8 w), ucast (drop_bit 16 w), ucast (drop_bit 24 w)]"

definition u64_bytes :: "64 word \<Rightarrow> byte list" where
  "u64_bytes w = [ucast w, ucast (drop_bit 8 w), ucast (drop_bit 16 w), ucast (drop_bit 24 w),
     ucast (drop_bit 32 w), ucast (drop_bit 40 w), ucast (drop_bit 48 w), ucast (drop_bit 56 w)]"

definition write_at :: "byte list \<Rightarrow> nat \<Rightarrow> byte list \<Rightarrow> byte list" where
  "write_at bin offset bs =
     take offset bin @ replicate (offset - length bin) 0 @ bs @ drop (offset + length bs) bin"

definition writeUint16 :: "byte list \<Rightarrow> nat \<Rightarrow> 16 word \<Rightarrow> byte list" where
  "writeUint16 bin offset v = write_at bin offset (u16_bytes v)"

definition writeUint32 :: "byte list \<Rightarrow> nat \<Rightarrow> 32 word \<Rightarrow> byte list" where
  "writeUint32 bin offset v = write_at bin offset (u32_bytes v)"

definition writeInt32 :: "byte list \<Rightarrow> nat \<Rightarrow> 32 word \<Rightarrow> byte list" where
  "writeInt32 bin offset v = write_at bin offset (u32_bytes v)"

definition writeUint64 :: "byte list \<Rightarrow> nat \<Rightarrow> 64 word \<Rightarrow> byte list" where
  "writeUint64 bin offset v = write_at bin offset (u64_bytes v)"

text \<open>The bytes of a buffer from an offset on, as many as asked for.\<close>

definition slice :: "'a list \<Rightarrow> nat \<Rightarrow> nat \<Rightarrow> 'a list" where
  "slice xs offset n = take n (drop offset xs)"

section \<open>Errors\<close>

text \<open>
  A \<^verbatim>\<open>throw runtime_error\<close> of the source is a value of \<open>error\<close>, one constructor per
  message. \<open>UndefinedBehaviour\<close> stands for the places where C++ defines no result: a
  vector indexed out of range, a null \<^verbatim>\<open>shared_ptr\<close> dereferenced, a recursion or loop
  with no end.
\<close>

datatype error =
    NoSymbolFound string
  | NoActiveSubroutine
  | RoutineIsEmpty
  | NotAnExistingRoutine
  | SymbolHasNoRoutine
  | BinaryLeftNotIdentifier
  | BinaryOperatorNotHandled
  | UndefinedBehaviour

fun seq :: "('s \<Rightarrow> error + 's) list \<Rightarrow> 's \<Rightarrow> error + 's" where
  "seq [] s = Inr s"
| "seq (f # fs) s = (case f s of Inl e \<Rightarrow> Inl e | Inr s' \<Rightarrow> seq fs s')"

section \<open>Data model\<close>

datatype SymbolType =
    ST_Variable | ST_Function | ST_Class | ST_Inline | ST_Type | ST_TypeArgument | ST_TypeVariable

record SourceMapEntry =
  bytecodePos :: nat
  sourcePos :: nat
  sourceEnd :: nat

record TypeArgumentUsage =
  symbolIndex :: nat
  ip :: nat

text \<open>
  A symbol points to its subroutine and to its frame. Every subroutine object is stored in
  \<^verbatim>\<open>Program::subroutines\<close> at the position that is its \<^verbatim>\<open>index\<close>, so the pointer is that
  position; the frame pointer is only ever compared for identity, so it is the address the
  frame got when it was allocated.
\<close>

record Symbol =
  sym_name :: string
  sym_type :: SymbolType
  sym_index :: nat
  sym_pos :: nat
  sym_end :: nat
  declarations :: nat
  routine :: "nat option"
  sym_frame :: nat

text \<open>
  \<^verbatim>\<open>Section::next\<close> and \<^verbatim>\<open>Section::up\<close> are \<^verbatim>\<open>int\<close> with -1 for none.
\<close>

record Section =
  sec_start :: nat
  sec_end :: nat
  lastOp :: OP
  sec_ops :: nat
  isBlockTailCall :: bool
  hasChild :: bool
  typeArgumentUsages :: "TypeArgumentUsage list"
  sec_next :: int
  sec_up :: int

record Subroutine =
  sub_ops :: "byte list"
  sub_sourceMap :: "SourceMapEntry list"
  sub_identifier :: string
  sub_index :: nat
  nameAddress :: "32 word"
  sub_type :: SymbolType
  sections :: "Section list"
  activeSection :: nat
  isIgnoreNextSectionOP :: bool

text \<open>
  A frame and the chain of its enclosing frames, as the \<^verbatim>\<open>shared<Frame> previous\<close>
  pointers link them.
\<close>

datatype Frame =
  Frame (conditional: bool) (previous: "Frame option") (frame_id: nat) (frame_addr: nat)
    (symbols: "Symbol list")

text \<open>
  \<open>frameCount\<close> is the allocator behind \<open>frame_addr\<close>: the number of frames made so far.
  \<^verbatim>\<open>storageMap\<close> is never read or written by the source and is left out.
\<close>

record Program =
  ops :: "byte list"
  sourceMap :: "SourceMapEntry list"
  storage :: "string list"
  storageIndex :: "32 word"
  frame :: Frame
  frameCount :: nat
  activeSubroutines :: "nat list"
  subroutines :: "Subroutine list"

type_synonym span = "nat \<times> nat"

text \<open>
  The constructor of \<^verbatim>\<open>Section\<close> sets \<^verbatim>\<open>start\<close> and \<^verbatim>\<open>up\<close>, the other members but
  \<^verbatim>\<open>isBlockTailCall\<close> have default initialisers; \<open>b\<close> is what \<^verbatim>\<open>isBlockTailCall\<close> holds,
  which the source does not set. The constructors of \<^verbatim>\<open>Subroutine\<close> make the first section.
\<close>

definition Section_new :: "bool \<Rightarrow> nat \<Rightarrow> int \<Rightarrow> Section" where
  "Section_new b st u = \<lparr>sec_start = st, sec_end = 0, lastOp = OP_Noop, sec_ops = 0,
     isBlockTailCall = b, hasChild = False, typeArgumentUsages = [], sec_next = - 1,
     sec_up = u\<rparr>"

definition Subroutine_new :: "bool \<Rightarrow> string \<Rightarrow> Subroutine" where
  "Subroutine_new b name = \<lparr>sub_ops = [], sub_sourceMap = [], sub_identifier = name,
     sub_index = 0, nameAddress = 0, sub_type = ST_Type, sections = [Section_new b 0 (- 1)],
     activeSection = 0, isIgnoreNextSectionOP = False\<rparr>"

definition Program_new :: Program where
  "Program_new = \<lparr>ops = [], sourceMap = [], storage = [], storageIndex = 0,
     frame = Frame False None 0 0 [], frameCount = 1, activeSubroutines = [],
     subroutines = []\<rparr>"

section \<open>Section\<close>

text \<open>
  \<^verbatim>\<open>Section::registerTypeArgumentUsage\<close>: the first usage with the symbol's index is
  overwritten (its \<^verbatim>\<open>symbolIndex\<close> field receives the ip); with none, a new usage is appended.
\<close>

fun registerUsage :: "nat \<Rightarrow> nat \<Rightarrow> TypeArgumentUsage list \<Rightarrow> TypeArgumentUsage list" where
  "registerUsage idx i [] = [\<lparr>symbolIndex = idx, ip = i\<rparr>]"
| "registerUsage idx i (u # us) =
     (if symbolIndex u = idx then u\<lparr>symbolIndex := i\<rparr> # us else u # registerUsage idx i us)"

definition sec_registerTypeArgumentUsage :: "Symbol \<Rightarrow> nat \<Rightarrow> Section \<Rightarrow> Section" where
  "sec_registerTypeArgumentUsage symbol i s =
     s\<lparr>typeArgumentUsages := registerUsage (sym_index symbol) i (typeArgumentUsages s)\<rparr>"

section \<open>Subroutine\<close>

definition sub_ip :: "Subroutine \<Rightarrow> nat" where
  "sub_ip s = length (sub_ops s)"

text \<open>\<^verbatim>\<open>sections[activeSection]\<close>, read and written back.\<close>

definition onActiveSection :: "(Section \<Rightarrow> Section) \<Rightarrow> Subroutine \<Rightarrow> error + Subroutine" where
  "onActiveSection f s =
     (if activeSection s < length (sections s)
      then Inr (s\<lparr>sections := (sections s)[activeSection s := f (sections s ! activeSection s)]\<rparr>)
      else Inl UndefinedBehaviour)"

definition sub_registerTypeArgumentUsage :: "Symbol \<Rightarrow> Subroutine \<Rightarrow> error + Subroutine" where
  "sub_registerTypeArgumentUsage symbol s =
     onActiveSection (sec_registerTypeArgumentUsage symbol (sub_ip s)) s"

definition sub_ignoreNextSectionOP :: "Subroutine \<Rightarrow> Subroutine" where
  "sub_ignoreNextSectionOP s = s\<lparr>isIgnoreNextSectionOP := True\<rparr>"

definition sub_blockTailCall :: "Subroutine \<Rightarrow> error + Subroutine" where
  "sub_blockTailCall s = onActiveSection (\<lambda>x. x\<lparr>isBlockTailCall := True\<rparr>) s"

definition sub_pushOp :: "Contract \<Rightarrow> OP \<Rightarrow> Subroutine \<Rightarrow> error + Subroutine" where
  "sub_pushOp vm op s =
     (let s1 = s\<lparr>sub_ops := sub_ops s @ [opcode vm op]\<rparr> in
      case (if \<not> isIgnoreNextSectionOP s1
            then onActiveSection (\<lambda>x. x\<lparr>lastOp := op, sec_ops := sec_ops x + 1\<rparr>) s1
            else Inr s1) of
        Inl e \<Rightarrow> Inl e
      | Inr s2 \<Rightarrow> Inr (s2\<lparr>isIgnoreNextSectionOP := False\<rparr>))"

definition sub_pushSection :: "Contract \<Rightarrow> Subroutine \<Rightarrow> error + Subroutine" where
  "sub_pushSection vm s =
     (case onActiveSection (\<lambda>x. x\<lparr>hasChild := True\<rparr>) s of
        Inl e \<Rightarrow> Inl e
      | Inr s1 \<Rightarrow>
          Inr (s1\<lparr>sections := sections s1 @
                    [Section_new (indeterminate vm (sub_index s1) (length (sections s1)))
                       (sub_ip s1) (int (activeSection s1))],
                  activeSection := length (sections s1)\<rparr>))"

definition sub_end :: "Subroutine \<Rightarrow> error + Subroutine" where
  "sub_end s = onActiveSection (\<lambda>x. x\<lparr>sec_end := sub_ip s\<rparr>) s"

text \<open>
  \<^verbatim>\<open>popSection\<close>: the last section of the vector is ended, its \<^verbatim>\<open>up\<close> becomes the active
  section, and when that one has no \<^verbatim>\<open>next\<close> yet a sibling is appended and made active.
  An \<^verbatim>\<open>up\<close> of -1 is converted to an unsigned index out of the vector's range.
\<close>

definition sub_popSection :: "Contract \<Rightarrow> Subroutine \<Rightarrow> error + Subroutine" where
  "sub_popSection vm s =
     (if sections s = [] then Inl UndefinedBehaviour
      else
        let secs1 = (sections s)[length (sections s) - 1 := (last (sections s))\<lparr>sec_end := sub_ip s\<rparr>];
            u = sec_up (last secs1)
        in if u < 0 \<or> nat u \<ge> length secs1 then Inl UndefinedBehaviour
           else
             let a = nat u in
             if sec_next (secs1 ! a) = - 1
             then
               let nxt = (Section_new (indeterminate vm (sub_index s) (length secs1))
                            (sub_ip s) (- 1))\<lparr>sec_up := sec_up (secs1 ! a)\<rparr>;
                   secs2 = (secs1 @ [nxt])[a := (secs1 ! a)\<lparr>sec_next := int (length secs1)\<rparr>]
               in Inr (s\<lparr>sections := secs2, activeSection := length secs1\<rparr>)
             else Inr (s\<lparr>sections := secs1, activeSection := a\<rparr>))"

definition sub_pushSourceMap :: "nat \<Rightarrow> nat \<Rightarrow> Subroutine \<Rightarrow> Subroutine" where
  "sub_pushSourceMap sp se s =
     s\<lparr>sub_sourceMap := sub_sourceMap s @
          [\<lparr>bytecodePos = length (sub_ops s), sourcePos = sp, sourceEnd = se\<rparr>]\<rparr>"

definition getFlags :: "Subroutine \<Rightarrow> byte" where
  "getFlags s = 0"

section \<open>Tail analysis\<close>

text \<open>
  \<^verbatim>\<open>Subroutine::ended\<close> follows the \<^verbatim>\<open>next\<close> links; the source recurses with no bound, so
  the model is a partial function: \<open>None\<close> when the recursion has no end or leaves the
  vector.
\<close>

partial_function (option) ended :: "Section list \<Rightarrow> Section \<Rightarrow> bool option" where
  "ended secs section =
     (if sec_next section \<ge> 0
      then (if nat (sec_next section) < length secs
            then ended secs (secs ! nat (sec_next section)) else None)
      else Some (sec_ops section = 0))"

text \<open>
  The \<^verbatim>\<open>while (current)\<close> loop of \<^verbatim>\<open>optimise\<close>, started at a section's \<^verbatim>\<open>up\<close>: the value
  of \<^verbatim>\<open>tail\<close> when the loop is left.
\<close>

partial_function (option) tail_ancestors :: "Section list \<Rightarrow> Section \<Rightarrow> bool option" where
  "tail_ancestors secs current =
     (if isBlockTailCall current then Some False
      else Option.bind (ended secs current) (\<lambda>e.
        if \<not> e then Some False
        else if sec_up current \<ge> 0
        then (if nat (sec_up current) < length secs
              then tail_ancestors secs (secs ! nat (sec_up current)) else None)
        else Some True))"

declare ended.simps [code]

declare tail_ancestors.simps [code]

text \<open>
  Whether the body of the \<^verbatim>\<open>for\<close> loop of \<^verbatim>\<open>optimise\<close> reaches \<^verbatim>\<open>if (tail)\<close> with
  \<^verbatim>\<open>tail\<close> set, for one section; the three \<^verbatim>\<open>continue\<close> give \<open>Some False\<close>.
\<close>

definition tail_section :: "Section list \<Rightarrow> Section \<Rightarrow> bool option" where
  "tail_section secs section =
     (if hasChild section then Some False
      else if isBlockTailCall section then Some False
      else Option.bind (if sec_next section \<ge> 0 then ended secs section else Some True) (\<lambda>e.
        if \<not> e then Some False
        else if sec_up section \<ge> 0
        then (if nat (sec_up section) < length secs
              then tail_ancestors secs (secs ! nat (sec_up section)) else None)
        else Some True))"

fun rest_reuse :: "Contract \<Rightarrow> TypeArgumentUsage list \<Rightarrow> byte list \<Rightarrow> byte list option" where
  "rest_reuse vm [] b = Some b"
| "rest_reuse vm (u # us) b =
     (if ip u < length b
      then rest_reuse vm us
             (if b ! ip u = opcode vm OP_Rest then b[ip u := opcode vm OP_RestReuse] else b)
      else None)"

text \<open>
  The body of \<^verbatim>\<open>if (tail)\<close>. \<^verbatim>\<open>section.end - 1 - 4 - 2\<close> is unsigned: below 7 it wraps to an
  index out of the vector's range.
\<close>

definition rewrite_tail :: "Contract \<Rightarrow> Section \<Rightarrow> byte list \<Rightarrow> byte list option" where
  "rewrite_tail vm section b =
     Option.bind
       (if lastOp section = OP_Call
        then (if 7 \<le> sec_end section \<and> sec_end section - 1 - 4 - 2 < length b
              then Some (b[sec_end section - 1 - 4 - 2 := opcode vm OP_TailCall]) else None)
        else Some b)
       (rest_reuse vm (typeArgumentUsages section))"

fun optimise_loop :: "Contract \<Rightarrow> Section list \<Rightarrow> Section list \<Rightarrow> byte list \<Rightarrow> byte list option" where
  "optimise_loop vm secs [] b = Some b"
| "optimise_loop vm secs (section # rest) b =
     Option.bind (tail_section secs section) (\<lambda>t.
       Option.bind (if t then rewrite_tail vm section b else Some b) (optimise_loop vm secs rest))"

definition optimise :: "Contract \<Rightarrow> Subroutine \<Rightarrow> Subroutine option" where
  "optimise vm s =
     map_option (\<lambda>b. s\<lparr>sub_ops := b\<rparr>) (optimise_loop vm (sections s) (sections s) (sub_ops s))"

section \<open>Program\<close>

definition activeSubroutine :: "Program \<Rightarrow> Subroutine" where
  "activeSubroutine p = subroutines p ! last (activeSubroutines p)"

text \<open>A member function called on \<^verbatim>\<open>activeSubroutines.back()\<close>.\<close>

definition onActive :: "(Subroutine \<Rightarrow> error + Subroutine) \<Rightarrow> Program \<Rightarrow> error + Program" where
  "onActive f p =
     (case f (activeSubroutine p) of
        Inl e \<Rightarrow> Inl e
      | Inr s \<Rightarrow> Inr (p\<lparr>subroutines := (subroutines p)[last (activeSubroutines p) := s]\<rparr>))"

definition getOPs :: "Program \<Rightarrow> byte list" where
  "getOPs p = (if activeSubroutines p \<noteq> [] then sub_ops (activeSubroutine p) else ops p)"

text \<open>A store through the reference \<^verbatim>\<open>getOPs()\<close> returns.\<close>

definition setOPs :: "byte list \<Rightarrow> Program \<Rightarrow> Program" where
  "setOPs b p =
     (if activeSubroutines p \<noteq> []
      then p\<lparr>subroutines :=
               (subroutines p)[last (activeSubroutines p) := (activeSubroutine p)\<lparr>sub_ops := b\<rparr>]\<rparr>
      else p\<lparr>ops := b\<rparr>)"

definition prog_ip :: "Program \<Rightarrow> nat" where
  "prog_ip p = length (getOPs p)"

definition pushOp :: "Contract \<Rightarrow> OP \<Rightarrow> Program \<Rightarrow> error + Program" where
  "pushOp vm op p =
     (if activeSubroutines p \<noteq> [] then onActive (sub_pushOp vm op) p
      else Inr (p\<lparr>ops := ops p @ [opcode vm op]\<rparr>))"

definition pushSourceMap :: "span \<Rightarrow> Program \<Rightarrow> Program" where
  "pushSourceMap node p =
     (if activeSubroutines p \<noteq> []
      then p\<lparr>subroutines := (subroutines p)[last (activeSubroutines p) :=
               sub_pushSourceMap (fst node) (snd node) (activeSubroutine p)]\<rparr>
      else p\<lparr>sourceMap := sourceMap p @
               [\<lparr>bytecodePos = length (ops p), sourcePos = fst node, sourceEnd = snd node\<rparr>]\<rparr>)"

text \<open>\<^verbatim>\<open>pushOp(OP op, const sharedOpt<Node> &node)\<close>: the node gives its source span.\<close>

definition pushOpNode :: "Contract \<Rightarrow> OP \<Rightarrow> span option \<Rightarrow> Program \<Rightarrow> error + Program" where
  "pushOpNode vm op node p =
     pushOp vm op (case node of None \<Rightarrow> p | Some sp \<Rightarrow> pushSourceMap sp p)"

definition popFrameImplicit :: "Program \<Rightarrow> Program" where
  "popFrameImplicit p = (case previous (frame p) of None \<Rightarrow> p | Some f \<Rightarrow> p\<lparr>frame := f\<rparr>)"

definition popFrame :: "Contract \<Rightarrow> Program \<Rightarrow> error + Program" where
  "popFrame vm p =
     (case pushOp vm OP_FrameEnd p of Inl e \<Rightarrow> Inl e | Inr p1 \<Rightarrow> Inr (popFrameImplicit p1))"

text \<open>\<^verbatim>\<open>make_shared<Frame>(frame)\<close> with the id set, made the current frame.\<close>

definition newFrame :: "Program \<Rightarrow> Program" where
  "newFrame p =
     p\<lparr>frame := Frame False (Some (frame p)) (frame_id (frame p) + 1) (frameCount p) [],
       frameCount := frameCount p + 1\<rparr>"

definition pushFrame :: "Contract \<Rightarrow> bool \<Rightarrow> Program \<Rightarrow> error + Program" where
  "pushFrame vm implicit p =
     (case (if \<not> implicit then pushOp vm OP_Frame p else Inr p) of
        Inl e \<Rightarrow> Inl e
      | Inr p1 \<Rightarrow> Inr (newFrame p1))"

definition pushSubroutineNameLess :: "Contract \<Rightarrow> Program \<Rightarrow> Program \<times> nat" where
  "pushSubroutineNameLess vm p =
     (let r = (Subroutine_new (indeterminate vm (length (subroutines p)) 0) [])
                \<lparr>sub_type := ST_Inline, sub_index := length (subroutines p)\<rparr>;
          p1 = newFrame p
      in (p1\<lparr>subroutines := subroutines p1 @ [r],
             activeSubroutines := activeSubroutines p1 @ [length (subroutines p1)]\<rparr>,
          sub_index r))"

definition registerTypeArgumentUsage :: "Symbol \<Rightarrow> Program \<Rightarrow> error + Program" where
  "registerTypeArgumentUsage symbol p =
     (if activeSubroutines p = [] then Inr p
      else onActive (sub_registerTypeArgumentUsage symbol) p)"

text \<open>
  \<^verbatim>\<open>pushSubroutine\<close> looks through \<^verbatim>\<open>frame->symbols\<close>, the symbols of the current frame, in
  insertion order. A symbol with a null \<^verbatim>\<open>routine\<close> is dereferenced by the source.
\<close>

definition pushSubroutine :: "string \<Rightarrow> Program \<Rightarrow> error + (Program \<times> nat)" where
  "pushSubroutine name p =
     (case find (\<lambda>s. sym_name s = name) (symbols (frame p)) of
        None \<Rightarrow> Inl (NoSymbolFound name)
      | Some s \<Rightarrow>
          (case routine s of
             None \<Rightarrow> Inl UndefinedBehaviour
           | Some r \<Rightarrow>
               let p1 = newFrame p
               in Inr (p1\<lparr>activeSubroutines := activeSubroutines p1 @ [r]\<rparr>,
                       sub_index (subroutines p ! r))))"

definition popSubroutine :: "Contract \<Rightarrow> Program \<Rightarrow> error + (Program \<times> Subroutine)" where
  "popSubroutine vm p =
     (if activeSubroutines p = [] then Inl NoActiveSubroutine
      else
        let p1 = popFrameImplicit p; subroutine = activeSubroutine p1
        in if sub_ops subroutine = [] then Inl RoutineIsEmpty
           else
             (case sub_end subroutine of
                Inl e \<Rightarrow> Inl e
              | Inr s1 \<Rightarrow>
                  (case optimise vm s1 of
                     None \<Rightarrow> Inl UndefinedBehaviour
                   | Some s2 \<Rightarrow>
                       let s3 = s2\<lparr>sub_ops := sub_ops s2 @ [opcode vm OP_Return]\<rparr>
                       in Inr (p1\<lparr>subroutines :=
                                    (subroutines p1)[last (activeSubroutines p1) := s3],
                                  activeSubroutines := butlast (activeSubroutines p1)\<rparr>,
                               s3))))"

text \<open>
  \<^verbatim>\<open>findSymbol\<close>: from the current frame to the root, each frame's symbols latest first.
\<close>

fun findSymbolFrom :: "Frame \<Rightarrow> string \<Rightarrow> Symbol option" where
  "findSymbolFrom (Frame c prev i a syms) name =
     (case find (\<lambda>s. sym_name s = name) (rev syms) of
        Some s \<Rightarrow> Some s
      | None \<Rightarrow> (case prev of None \<Rightarrow> None | Some f \<Rightarrow> findSymbolFrom f name))"

definition findSymbol :: "string \<Rightarrow> Program \<Rightarrow> Symbol option" where
  "findSymbol name p = findSymbolFrom (frame p) name"

definition pushAddress :: "32 word \<Rightarrow> nat \<Rightarrow> Program \<Rightarrow> Program" where
  "pushAddress address offset p =
     (let b = getOPs p in setOPs (writeUint32 b (if offset = 0 then length b else offset) address) p)"

definition pushInt32Address :: "32 word \<Rightarrow> nat \<Rightarrow> Program \<Rightarrow> Program" where
  "pushInt32Address address offset p =
     (let b = getOPs p in setOPs (writeInt32 b (if offset = 0 then length b else offset) address) p)"

definition pushUint32 :: "32 word \<Rightarrow> Program \<Rightarrow> Program" where
  "pushUint32 v p = (let b = getOPs p in setOPs (writeUint32 b (length b) v) p)"

definition pushUint16 :: "16 word \<Rightarrow> nat \<Rightarrow> Program \<Rightarrow> Program" where
  "pushUint16 v offset p =
     (let b = getOPs p in setOPs (writeUint16 b (if offset = 0 then length b else offset) v) p)"

text \<open>\<^verbatim>\<open>pushError\<close> writes to the members \<^verbatim>\<open>sourceMap\<close> and \<^verbatim>\<open>ops\<close> of the program, the main code.\<close>

definition pushError :: "Contract \<Rightarrow> ErrorCode \<Rightarrow> span \<Rightarrow> Program \<Rightarrow> Program" where
  "pushError vm code node p =
     (let sm = sourceMap p @ [\<lparr>bytecodePos = 0, sourcePos = fst node, sourceEnd = snd node\<rparr>];
          b = ops p @ [opcode vm OP_Error]
      in p\<lparr>sourceMap := sm, ops := writeUint16 b (length b) (ucast (errorCode vm code))\<rparr>)"

text \<open>
  \<^verbatim>\<open>pushSymbolAddress\<close> counts the frames from the current one up to the symbol's frame, or
  all of them when it is not in the chain.
\<close>

fun frameOffsetOf :: "nat \<Rightarrow> Frame \<Rightarrow> nat" where
  "frameOffsetOf target (Frame c prev i a syms) =
     (if a = target then 0
      else (case prev of None \<Rightarrow> 1 | Some f \<Rightarrow> Suc (frameOffsetOf target f)))"

definition pushSymbolAddress :: "Symbol \<Rightarrow> Program \<Rightarrow> Program" where
  "pushSymbolAddress symbol p =
     (let frameOffset = frameOffsetOf (sym_frame symbol) (frame p);
          b1 = writeUint16 (getOPs p) (length (getOPs p)) (of_nat frameOffset);
          b2 = writeUint16 b1 (length b1) (of_nat (sym_index symbol))
      in setOPs b2 p)"

definition ignoreNextSectionOP :: "Program \<Rightarrow> Program" where
  "ignoreNextSectionOP p =
     (if activeSubroutines p \<noteq> []
      then p\<lparr>subroutines := (subroutines p)[last (activeSubroutines p) :=
               sub_ignoreNextSectionOP (activeSubroutine p)]\<rparr>
      else p)"

definition pushSection :: "Contract \<Rightarrow> Program \<Rightarrow> error + Program" where
  "pushSection vm p =
     (if activeSubroutines p \<noteq> [] then onActive (sub_pushSection vm) p else Inr p)"

definition blockTailCall :: "Program \<Rightarrow> error + Program" where
  "blockTailCall p = (if activeSubroutines p \<noteq> [] then onActive sub_blockTailCall p else Inr p)"

definition popSection :: "Contract \<Rightarrow> Program \<Rightarrow> error + Program" where
  "popSection vm p =
     (if activeSubroutines p \<noteq> [] then onActive (sub_popSection vm) p else Inr p)"

fun set_symbols :: "Symbol list \<Rightarrow> Frame \<Rightarrow> Frame" where
  "set_symbols syms (Frame c prev i a old) = Frame c prev i a syms"

fun set_conditional :: "bool \<Rightarrow> Frame \<Rightarrow> Frame" where
  "set_conditional b (Frame c prev i a syms) = Frame b prev i a syms"

text \<open>The position of the first symbol of a name, as the loop of \<^verbatim>\<open>pushSymbol\<close> meets it.\<close>

fun symbolPosition :: "string \<Rightarrow> Symbol list \<Rightarrow> nat option" where
  "symbolPosition name [] = None"
| "symbolPosition name (s # ss) =
     (if sym_name s = name then Some 0 else map_option Suc (symbolPosition name ss))"

text \<open>
  \<^verbatim>\<open>pushSymbol\<close> returns a reference into \<^verbatim>\<open>frame->symbols\<close>; the model returns the position.
  The source never passes \<^verbatim>\<open>frameToUse\<close>, so the frame is the current one.
\<close>

definition pushSymbol :: "string \<Rightarrow> SymbolType \<Rightarrow> span \<Rightarrow> Program \<Rightarrow> Program \<times> nat" where
  "pushSymbol name ty node p =
     (let f = frame p; syms = symbols f
      in case (if ty \<noteq> ST_TypeVariable then symbolPosition name syms else None) of
           Some k \<Rightarrow>
             (p\<lparr>frame := set_symbols
                   (syms[k := (syms ! k)\<lparr>declarations := declarations (syms ! k) + 1\<rparr>]) f\<rparr>, k)
         | None \<Rightarrow>
             (p\<lparr>frame := set_symbols
                   (syms @ [\<lparr>sym_name = name, sym_type = ty, sym_index = length syms,
                             sym_pos = fst node, sym_end = snd node, declarations = 1,
                             routine = None, sym_frame = frame_addr f\<rparr>]) f\<rparr>,
              length syms))"

definition registerStorage :: "string \<Rightarrow> Program \<Rightarrow> Program \<times> 32 word" where
  "registerStorage s p =
     (let idx = (if storageIndex p = 0 then 1 + 4 else storageIndex p);
          address = idx
      in (p\<lparr>storage := storage p @ [s], storageIndex := idx + 8 + 2 + of_nat (length s)\<rparr>,
          address))"

definition pushSymbolForRoutine ::
  "Contract \<Rightarrow> string \<Rightarrow> SymbolType \<Rightarrow> span \<Rightarrow> Program \<Rightarrow> Program \<times> Symbol" where
  "pushSymbolForRoutine vm name ty node p =
     (let (p1, k) = pushSymbol name ty node p;
          symbol = symbols (frame p1) ! k
      in if routine symbol \<noteq> None then (p1, symbol)
         else
           let (p2, address) = registerStorage name p1;
               r = (Subroutine_new (indeterminate vm (length (subroutines p2)) 0) name)
                     \<lparr>sub_type := ty, nameAddress := address,
                       sub_index := length (subroutines p2)\<rparr>;
               symbol' = symbol\<lparr>routine := Some (length (subroutines p2))\<rparr>
           in (p2\<lparr>subroutines := subroutines p2 @ [r],
                  frame := set_symbols ((symbols (frame p2))[k := symbol']) (frame p2)\<rparr>,
               symbol'))"

definition pushStorage :: "string \<Rightarrow> Program \<Rightarrow> Program" where
  "pushStorage s p = (let (p1, address) = registerStorage s p in pushAddress address 0 p1)"

definition pushStringLiteral :: "Contract \<Rightarrow> string \<Rightarrow> span \<Rightarrow> Program \<Rightarrow> error + Program" where
  "pushStringLiteral vm s node p =
     (case pushOpNode vm OP_StringLiteral (Some node) p of
        Inl e \<Rightarrow> Inl e
      | Inr p1 \<Rightarrow> Inr (pushStorage s p1))"

section \<open>The image\<close>

text \<open>
  \<^verbatim>\<open>Program::build\<close>. The counters \<^verbatim>\<open>address\<close>, \<^verbatim>\<open>sourceMapSize\<close> and
  \<^verbatim>\<open>bytecodePosOffset\<close> are \<^verbatim>\<open>unsigned int\<close> and wrap at 32 bits; the length written in
  front of a storage entry is cut to 16 bits by \<^verbatim>\<open>writeUint16\<close>.
\<close>

definition storage_end :: "string list \<Rightarrow> 32 word" where
  "storage_end items = fold (\<lambda>item address. address + 8 + 2 + of_nat (length item)) items 5"

definition put_storage :: "Contract \<Rightarrow> string \<Rightarrow> byte list \<Rightarrow> byte list" where
  "put_storage vm item bin =
     (let b1 = writeUint64 bin (length bin) (runtime_hash vm item);
          b2 = writeUint16 b1 (length b1) (of_nat (length item))
      in b2 @ map of_char item)"

definition put_map :: "32 word \<Rightarrow> SourceMapEntry \<Rightarrow> byte list \<Rightarrow> byte list" where
  "put_map bytecodePosOffset m bin =
     (let b1 = writeUint32 bin (length bin) (bytecodePosOffset + of_nat (bytecodePos m));
          b2 = writeUint32 b1 (length b1) (of_nat (sourcePos m))
      in writeUint32 b2 (length b2) (of_nat (sourceEnd m)))"

text \<open>The loop over the subroutines that writes their source maps: the bytes and the offset.\<close>

fun put_routine_maps :: "Subroutine list \<Rightarrow> byte list \<times> 32 word \<Rightarrow> byte list \<times> 32 word" where
  "put_routine_maps [] acc = acc"
| "put_routine_maps (r # rs) (bin, bytecodePosOffset) =
     put_routine_maps rs
       (fold (put_map bytecodePosOffset) (sub_sourceMap r) bin,
        bytecodePosOffset + of_nat (length (sub_ops r)))"

text \<open>The loop that writes the subroutine table: the bytes and the running address.\<close>

fun put_routine_heads ::
  "Contract \<Rightarrow> Subroutine list \<Rightarrow> byte list \<times> 32 word \<Rightarrow> byte list \<times> 32 word" where
  "put_routine_heads vm [] acc = acc"
| "put_routine_heads vm (r # rs) (bin, address) =
     (let b1 = bin @ [opcode vm OP_Subroutine];
          b2 = writeUint32 b1 (length b1) (nameAddress r);
          b3 = writeUint32 b2 (length b2) address
      in put_routine_heads vm rs (b3 @ [getFlags r], address + of_nat (length (sub_ops r))))"

definition build :: "Contract \<Rightarrow> Program \<Rightarrow> byte list" where
  "build vm p =
     (let bin0 = writeUint32 [opcode vm OP_Jump] 1 0;
          address1 = storage_end (storage p);
          bin1 = writeUint32 bin0 1 address1;
          bin2 = fold (put_storage vm) (storage p) bin1;
          sourceMapSize =
            fold (\<lambda>r n. n + of_nat (length (sub_sourceMap r)) * (4 * 3)) (subroutines p) 0
              + of_nat (length (sourceMap p)) * (4 * 3);
          bin3 = bin2 @ [opcode vm OP_SourceMap];
          bin4 = writeUint32 bin3 (length bin3) sourceMapSize;
          address2 = address1 + 1 + 4 + sourceMapSize;
          bytecodePosOffset = address2 + of_nat (length (subroutines p)) * (1 + 4 + 4 + 1) + (1 + 4);
          (bin5, bytecodePosOffset') = put_routine_maps (subroutines p) (bin4, bytecodePosOffset);
          bin6 = fold (put_map bytecodePosOffset') (sourceMap p) bin5;
          address3 = address2 + (1 + 4) + of_nat (length (subroutines p)) * (1 + 4 + 4 + 1);
          (bin7, address4) = put_routine_heads vm (subroutines p) (bin6, address3);
          bin8 = bin7 @ [opcode vm OP_Main];
          bin9 = writeUint32 bin8 (length bin8) address4;
          bin10 = fold (\<lambda>r b. b @ sub_ops r) (subroutines p) bin9
      in bin10 @ ops p @ [opcode vm OP_Halt])"

section \<open>The syntax tree\<close>

text \<open>
  The node types of the parser are declared outside the sources; the tree below has, for
  each \<^verbatim>\<open>SyntaxKind\<close> that \<^verbatim>\<open>Compiler::handle\<close> names, the fields \<^verbatim>\<open>handle\<close> reads, and the
  source span (\<^verbatim>\<open>pos\<close>, \<^verbatim>\<open>end\<close>) every node carries. A field the source reads as
  \<^verbatim>\<open>n->name->escapedText\<close> with no cast is an identifier: its span and its text. A token
  the source only tests for presence is a \<open>bool\<close>, one it also passes to \<^verbatim>\<open>pushOp\<close> a
  \<open>span option\<close>. \<open>Unhandled\<close> is a node of any other kind.
\<close>

type_synonym ident = "span \<times> string"

datatype (plugins only: size code) node =
    SourceFile span "node list"
  | AnyKeyword span
  | NullKeyword span
  | UndefinedKeyword span
  | NeverKeyword span
  | BooleanKeyword span
  | StringKeyword span
  | NumberKeyword span
  | TrueKeyword span
  | FalseKeyword span
  | BigIntLiteral span string
  | NumericLiteral span string
  | StringLiteral span string
  | IndexedAccessType span node node
  | LiteralType span node
  | TemplateLiteralType span "span \<times> string option" "node list"
  | TemplateLiteralTypeSpan span node node
  | TemplateMiddle span "string option"
  | TemplateTail span "string option"
  | UnionType span "node list"
  | TypeReference span node "node list option"
  | TypeAliasDeclaration span ident "node list option" node
  | Parameter span node "node option" "span option" "node option"
  | TypeParameter span ident "node option"
  | FunctionDeclaration span "node option" "node list option" "node list" "node option"
  | Identifier span string "node list option"
  | PropertyAssignment span node "node option" bool bool
  | PropertySignature span node "node option" bool bool
  | InterfaceDeclaration span span "node list option" "node list"
  | HeritageClause span bool "node list"
  | TypeLiteral span "node list"
  | ParenthesizedExpression span node
  | ExpressionWithTypeArguments span node "node list option"
  | ObjectLiteralExpression span "node list"
  | CallExpression span node "node list option" "node list"
  | ExpressionStatement span node
  | ConditionalExpression span node node
  | ConditionalType span node node node node
  | ParenthesizedType span node
  | RestType span node
  | ArrayLiteralExpression span "node list"
  | ArrayType span node
  | TupleType span "node list"
  | NamedTupleMember span node bool bool
  | OptionalType span node
  | BinaryExpression span node bool span node
  | VariableStatement span "node list"
  | VariableDeclaration span node "node option" "node option" bool
  | Unhandled span

fun node_span :: "node \<Rightarrow> span" where
  "node_span (SourceFile sp statements) = sp"
| "node_span (AnyKeyword sp) = sp"
| "node_span (NullKeyword sp) = sp"
| "node_span (UndefinedKeyword sp) = sp"
| "node_span (NeverKeyword sp) = sp"
| "node_span (BooleanKeyword sp) = sp"
| "node_span (StringKeyword sp) = sp"
| "node_span (NumberKeyword sp) = sp"
| "node_span (TrueKeyword sp) = sp"
| "node_span (FalseKeyword sp) = sp"
| "node_span (BigIntLiteral sp text) = sp"
| "node_span (NumericLiteral sp text) = sp"
| "node_span (StringLiteral sp text) = sp"
| "node_span (IndexedAccessType sp objectType indexType) = sp"
| "node_span (LiteralType sp literal) = sp"
| "node_span (TemplateLiteralType sp head templateSpans) = sp"
| "node_span (TemplateLiteralTypeSpan sp ty literal) = sp"
| "node_span (TemplateMiddle sp rawText) = sp"
| "node_span (TemplateTail sp rawText) = sp"
| "node_span (UnionType sp types) = sp"
| "node_span (TypeReference sp typeName typeArguments) = sp"
| "node_span (TypeAliasDeclaration sp name typeParameters ty) = sp"
| "node_span (Parameter sp name ty questionToken initializer) = sp"
| "node_span (TypeParameter sp name defaultType) = sp"
| "node_span (FunctionDeclaration sp name typeParameters parameters ty) = sp"
| "node_span (Identifier sp escapedText typeArguments) = sp"
| "node_span (PropertyAssignment sp name initializer questionToken readonly) = sp"
| "node_span (PropertySignature sp name ty questionToken readonly) = sp"
| "node_span (InterfaceDeclaration sp name heritageClauses members) = sp"
| "node_span (HeritageClause sp extendsToken types) = sp"
| "node_span (TypeLiteral sp members) = sp"
| "node_span (ParenthesizedExpression sp expression) = sp"
| "node_span (ExpressionWithTypeArguments sp expression typeArguments) = sp"
| "node_span (ObjectLiteralExpression sp properties) = sp"
| "node_span (CallExpression sp expression typeArguments arguments) = sp"
| "node_span (ExpressionStatement sp expression) = sp"
| "node_span (ConditionalExpression sp whenTrue whenFalse) = sp"
| "node_span (ConditionalType sp checkType extendsType trueType falseType) = sp"
| "node_span (ParenthesizedType sp ty) = sp"
| "node_span (RestType sp ty) = sp"
| "node_span (ArrayLiteralExpression sp elements) = sp"
| "node_span (ArrayType sp elementType) = sp"
| "node_span (TupleType sp elements) = sp"
| "node_span (NamedTupleMember sp ty dotDotDotToken questionToken) = sp"
| "node_span (OptionalType sp ty) = sp"
| "node_span (BinaryExpression sp left equalsToken operatorToken right) = sp"
| "node_span (VariableStatement sp declarationList) = sp"
| "node_span (VariableDeclaration sp name ty initializer isConst) = sp"
| "node_span (Unhandled sp) = sp"

text \<open>\<^verbatim>\<open>to<Identifier>(node)\<close>: null unless the node is an identifier.\<close>

fun as_Identifier :: "node \<Rightarrow> ident option" where
  "as_Identifier (Identifier sp escapedText typeArguments) = Some (sp, escapedText)"
| "as_Identifier n = None"

text \<open>The test of \<^verbatim>\<open>IndexedAccessType\<close> for the index \<^verbatim>\<open>"length"\<close>.\<close>

fun isLengthIndex :: "node \<Rightarrow> bool" where
  "isLengthIndex (LiteralType sp (StringLiteral sp' text)) = (text = ''length'')"
| "isLengthIndex n = False"

text \<open>
  \<^verbatim>\<open>distributiveOverIdentifier\<close>: the identifier when the check type is a type reference
  whose name is one.
\<close>

fun distributiveOver :: "node \<Rightarrow> ident option" where
  "distributiveOver (TypeReference sp typeName typeArguments) = as_Identifier typeName"
| "distributiveOver n = None"

section \<open>Lowering\<close>

type_synonym step = "Program \<Rightarrow> error + Program"

definition lift :: "(Program \<Rightarrow> Program) \<Rightarrow> step" where
  "lift f p = Inr (f p)"

definition fail :: "error \<Rightarrow> step" where
  "fail e p = Inl e"

text \<open>A call whose returned index or subroutine the caller does not use.\<close>

definition discard :: "(Program \<Rightarrow> error + (Program \<times> 'a)) \<Rightarrow> step" where
  "discard f p = (case f p of Inl e \<Rightarrow> Inl e | Inr (p', x) \<Rightarrow> Inr p')"

definition setConditional :: "Program \<Rightarrow> Program" where
  "setConditional p = p\<lparr>frame := set_conditional True (frame p)\<rparr>"

text \<open>
  The branch of \<^verbatim>\<open>TypeReference\<close>, \<^verbatim>\<open>Identifier\<close> and \<^verbatim>\<open>BinaryExpression\<close> for a name that
  \<^verbatim>\<open>findSymbol\<close> does not find.
\<close>

definition cannotFind :: "Contract \<Rightarrow> span \<Rightarrow> step" where
  "cannotFind vm node =
     seq [pushOpNode vm OP_Never (Some node), lift (pushError vm CannotFind node)]"

text \<open>
  The branch for a symbol that owns a routine: the type arguments, then \<^verbatim>\<open>Call\<close>, the
  routine's index and the number of type arguments.
\<close>

definition callRoutine :: "Contract \<Rightarrow> span \<Rightarrow> Symbol \<Rightarrow> step list option \<Rightarrow> step" where
  "callRoutine vm node symbol typeArguments =
     seq [(case typeArguments of None \<Rightarrow> Inr | Some l \<Rightarrow> seq l),
          pushOpNode vm OP_Call (Some node),
          (\<lambda>p. case routine symbol of
                 None \<Rightarrow> Inl NotAnExistingRoutine
               | Some r \<Rightarrow> Inr (pushAddress (of_nat (sub_index (subroutines p ! r))) 0 p)),
          lift (pushUint16 (case typeArguments of None \<Rightarrow> 0 | Some l \<Rightarrow> of_nat (length l)) 0)]"

definition loadSymbol :: "Contract \<Rightarrow> span \<Rightarrow> Symbol \<Rightarrow> step" where
  "loadSymbol vm node symbol =
     seq [pushOpNode vm OP_Loads (Some node), lift (pushSymbolAddress symbol)]"

text \<open>The \<^verbatim>\<open>case SyntaxKind::TypeReference\<close> of \<^verbatim>\<open>handle\<close>, the type arguments lowered by \<open>args\<close>.\<close>

definition lowerTypeReference :: "Contract \<Rightarrow> node \<Rightarrow> step list option \<Rightarrow> step" where
  "lowerTypeReference vm typeName typeArguments =
     (case as_Identifier typeName of
        None \<Rightarrow> fail UndefinedBehaviour
      | Some (isp, name) \<Rightarrow>
          (\<lambda>p. case findSymbol name p of
                 None \<Rightarrow> cannotFind vm isp p
               | Some symbol \<Rightarrow>
                   if sym_type symbol = ST_TypeArgument \<or> sym_type symbol = ST_TypeVariable
                   then seq [loadSymbol vm isp symbol,
                             (if sym_type symbol = ST_TypeArgument
                              then registerTypeArgumentUsage symbol else Inr)] p
                   else callRoutine vm isp symbol typeArguments p))"

text \<open>The \<^verbatim>\<open>case SyntaxKind::Identifier\<close> of \<^verbatim>\<open>handle\<close>.\<close>

definition lowerIdentifier :: "Contract \<Rightarrow> span \<Rightarrow> string \<Rightarrow> step list option \<Rightarrow> step" where
  "lowerIdentifier vm node escapedText typeArguments =
     (\<lambda>p. case findSymbol escapedText p of
            None \<Rightarrow> cannotFind vm node p
          | Some symbol \<Rightarrow>
              if sym_type symbol = ST_TypeArgument \<or> sym_type symbol = ST_TypeVariable
              then loadSymbol vm node symbol p
              else callRoutine vm node symbol typeArguments p)"

text \<open>
  The \<^verbatim>\<open>case SyntaxKind::ConditionalType\<close> of \<^verbatim>\<open>handle\<close>, in the order of the source, cut
  where the source reads \<^verbatim>\<open>program.ip()\<close> into a local. The four steps are the lowerings of
  the check, extends, true and false types.

  \<open>cond_open\<close>: from \<^verbatim>\<open>pushSection\<close> to the \<^verbatim>\<open>Distribute\<close> opcode; \<^verbatim>\<open>distributeJumpIp\<close> is
  the ip where it ends (0 when the type does not distribute).
\<close>

definition cond_open :: "Contract \<Rightarrow> ident option \<Rightarrow> step \<Rightarrow> step" where
  "cond_open vm distributiveOverIdentifier checkType =
     seq [pushSection vm,
          (case distributiveOverIdentifier of
             None \<Rightarrow> Inr
           | Some (isp, text) \<Rightarrow>
               seq [checkType, blockTailCall, pushFrame vm True,
                    lift (\<lambda>p. fst (pushSymbol text ST_TypeVariable isp p)),
                    pushOp vm OP_Distribute])]"

text \<open>
  \<open>cond_test\<close>: the placeholder of \<^verbatim>\<open>Distribute\<close>, the conditional frame, the check and
  extends types, \<^verbatim>\<open>Extends\<close> and \<^verbatim>\<open>JumpCondition\<close>; \<^verbatim>\<open>relativeTo\<close> and
  \<^verbatim>\<open>falseJumpAddressIp\<close> are the ip where it ends.
\<close>

definition cond_test :: "Contract \<Rightarrow> span \<Rightarrow> ident option \<Rightarrow> step \<Rightarrow> step \<Rightarrow> step" where
  "cond_test vm node distributiveOverIdentifier checkType extendsType =
     seq [(if distributiveOverIdentifier \<noteq> None then lift (pushAddress 0 0) else Inr),
          pushFrame vm False, lift setConditional,
          checkType, extendsType,
          pushOpNode vm OP_Extends (Some node),
          pushOp vm OP_JumpCondition]"

text \<open>
  \<open>cond_true\<close>: the false-jump placeholder, the true branch in its section and the
  \<^verbatim>\<open>Jump\<close> opcode; \<^verbatim>\<open>trueJumpAddressIp\<close> is the ip where it ends.
\<close>

definition cond_true :: "Contract \<Rightarrow> step \<Rightarrow> step" where
  "cond_true vm trueType =
     seq [lift (pushAddress 0 0), pushSection vm, trueType, popSection vm,
          lift ignoreNextSectionOP, pushOp vm OP_Jump]"

text \<open>
  \<open>cond_false\<close>: the true-jump placeholder and the false branch in its section;
  \<^verbatim>\<open>falseProgram\<close> is the ip after the placeholder plus 1, \<^verbatim>\<open>falseEndIp\<close> the ip where it ends.
\<close>

definition cond_false :: "Contract \<Rightarrow> step \<Rightarrow> step" where
  "cond_false vm falseType = seq [pushSection vm, falseType, popSection vm]"

text \<open>\<open>cond_close\<close>: the back-patches and the end of the frame and of the outer section.\<close>

definition cond_close ::
  "Contract \<Rightarrow> ident option \<Rightarrow> nat \<Rightarrow> nat \<Rightarrow> nat \<Rightarrow> nat \<Rightarrow> nat \<Rightarrow> nat \<Rightarrow> step" where
  "cond_close vm distributiveOverIdentifier distributeJumpIp relativeTo falseJumpAddressIp
       trueJumpAddressIp falseProgram falseEndIp =
     seq [lift (pushInt32Address (of_nat falseProgram - of_nat relativeTo) falseJumpAddressIp),
          lift (pushInt32Address (of_nat falseEndIp - of_nat trueJumpAddressIp + 1)
                  trueJumpAddressIp),
          (if distributiveOverIdentifier \<noteq> None
           then seq [lift (pushAddress (of_nat falseEndIp - of_nat distributeJumpIp + 6)
                             distributeJumpIp),
                     lift ignoreNextSectionOP,
                     pushOp vm OP_FrameReturnJump,
                     (\<lambda>p. Inr (pushInt32Address
                                (- (of_nat (prog_ip p) - of_nat distributeJumpIp)) 0 p)),
                     lift popFrameImplicit]
           else seq [lift ignoreNextSectionOP, popFrame vm]),
          popSection vm]"

definition lowerConditionalType ::
  "Contract \<Rightarrow> span \<Rightarrow> ident option \<Rightarrow> step \<Rightarrow> step \<Rightarrow> step \<Rightarrow> step \<Rightarrow> step" where
  "lowerConditionalType vm node distributiveOverIdentifier checkType extendsType trueType
       falseType p =
     (case cond_open vm distributiveOverIdentifier checkType p of
        Inl e \<Rightarrow> Inl e
      | Inr p1 \<Rightarrow>
     let distributeJumpIp = (if distributiveOverIdentifier \<noteq> None then prog_ip p1 else 0) in
     (case cond_test vm node distributiveOverIdentifier checkType extendsType p1 of
        Inl e \<Rightarrow> Inl e
      | Inr p2 \<Rightarrow>
     let relativeTo = prog_ip p2; falseJumpAddressIp = prog_ip p2 in
     (case cond_true vm trueType p2 of
        Inl e \<Rightarrow> Inl e
      | Inr p3 \<Rightarrow>
     let trueJumpAddressIp = prog_ip p3;
         p4 = pushAddress 0 0 p3;
         falseProgram = prog_ip p4 + 1 in
     (case cond_false vm falseType p4 of
        Inl e \<Rightarrow> Inl e
      | Inr p5 \<Rightarrow>
     let falseEndIp = prog_ip p5 in
     cond_close vm distributiveOverIdentifier distributeJumpIp relativeTo falseJumpAddressIp
       trueJumpAddressIp falseProgram falseEndIp p5))))"

text \<open>One span of a template literal type: the literal after the type.\<close>

fun templatePiece :: "Contract \<Rightarrow> span \<Rightarrow> node \<Rightarrow> step" where
  "templatePiece vm sub (TemplateMiddle sp rawText) =
     (case rawText of
        Some t \<Rightarrow> if t \<noteq> [] then seq [pushOpNode vm OP_StringLiteral (Some sub), lift (pushStorage t)]
                  else Inr
      | None \<Rightarrow> Inr)"
| "templatePiece vm sub (TemplateTail sp rawText) =
     (case rawText of
        Some t \<Rightarrow> if t \<noteq> [] then seq [pushOpNode vm OP_StringLiteral (Some sp), lift (pushStorage t)]
                  else Inr
      | None \<Rightarrow> Inr)"
| "templatePiece vm sub n = Inr"

text \<open>
  The declarations: \<^verbatim>\<open>pushSymbolForRoutine\<close>, nothing more for a second declaration, else
  the body between \<^verbatim>\<open>pushSubroutine\<close> and \<^verbatim>\<open>popSubroutine\<close>.
\<close>

definition lowerTypeAlias :: "Contract \<Rightarrow> span \<Rightarrow> string \<Rightarrow> step list option \<Rightarrow> step \<Rightarrow> step" where
  "lowerTypeAlias vm node name typeParameters ty p =
     (let (p1, symbol) = pushSymbolForRoutine vm name ST_Type node p
      in if declarations symbol > 1 then Inr p1
         else seq [discard (pushSubroutine name),
                   (if typeParameters = None \<or> length (the typeParameters) = 0
                    then blockTailCall else Inr),
                   (case typeParameters of None \<Rightarrow> Inr | Some l \<Rightarrow> seq l),
                   ty,
                   discard (popSubroutine vm)] p1)"

definition lowerTypeParameter :: "Contract \<Rightarrow> span \<Rightarrow> ident \<Rightarrow> step option \<Rightarrow> step" where
  "lowerTypeParameter vm node name defaultType p =
     (let (p1, k) = pushSymbol (snd name) ST_TypeArgument node p
      in case defaultType of
           Some d \<Rightarrow>
             (let (p2, idx) = pushSubroutineNameLess vm p1
              in case d p2 of
                   Inl e \<Rightarrow> Inl e
                 | Inr p3 \<Rightarrow>
                     (case popSubroutine vm p3 of
                        Inl e \<Rightarrow> Inl e
                      | Inr (p4, r) \<Rightarrow>
                          seq [pushOpNode vm OP_TypeArgumentDefault (Some (fst name)),
                               lift (pushAddress (of_nat (sub_index r)) 0)] p4))
         | None \<Rightarrow> pushOpNode vm OP_TypeArgument (Some (fst name)) p1)"

definition lowerFunction ::
  "Contract \<Rightarrow> span \<Rightarrow> ident \<Rightarrow> step list option \<Rightarrow> step list \<Rightarrow> step option \<Rightarrow> step" where
  "lowerFunction vm node name typeParameters parameters ty p =
     (let (p1, symbol) = pushSymbolForRoutine vm (snd name) ST_Function (fst name) p
      in if declarations symbol > 1 then Inr p1
         else
           (case typeParameters of
              Some tps \<Rightarrow>
                (case pushSubroutine (snd name) p1 of
                   Inl e \<Rightarrow> Inl e
                 | Inr (p2, i) \<Rightarrow>
                     let (p3, subroutineIndex) = pushSubroutineNameLess vm p2
                     in seq [seq tps, seq parameters,
                             (case ty of Some t \<Rightarrow> t | None \<Rightarrow> pushOp vm OP_Unknown),
                             pushOpNode vm OP_Function (Some node),
                             discard (popSubroutine vm),
                             pushOpNode vm OP_FunctionRef (Some node),
                             lift (pushAddress (of_nat subroutineIndex) 0),
                             discard (popSubroutine vm)] p3)
            | None \<Rightarrow>
                seq [discard (pushSubroutine (snd name)), seq parameters,
                     (case ty of Some t \<Rightarrow> t | None \<Rightarrow> pushOp vm OP_Unknown),
                     pushOpNode vm OP_Function (Some node),
                     discard (popSubroutine vm)] p1))"

definition lowerVariable ::
  "Contract \<Rightarrow> ident \<Rightarrow> step option \<Rightarrow> step option \<Rightarrow> bool \<Rightarrow> step" where
  "lowerVariable vm name ty initializer isConst p =
     (let (p1, symbol) = pushSymbolForRoutine vm (snd name) ST_Variable (fst name) p
      in if declarations symbol > 1 then Inr p1
         else
           (case pushSubroutine (snd name) p1 of
              Inl e \<Rightarrow> Inl e
            | Inr (p2, subroutineIndex) \<Rightarrow>
                (case ty of
                   Some t \<Rightarrow>
                     seq [blockTailCall, t, discard (popSubroutine vm),
                          (case initializer of
                             Some i \<Rightarrow>
                               seq [i, pushOp vm OP_Call,
                                    lift (pushAddress (of_nat subroutineIndex) 0),
                                    lift (pushUint16 0 0),
                                    pushOpNode vm OP_Assign (Some (fst name))]
                           | None \<Rightarrow> Inr)] p2
                 | None \<Rightarrow>
                     (case initializer of
                        Some i \<Rightarrow>
                          seq [i, (if \<not> isConst then pushOp vm OP_Widen else Inr),
                               discard (popSubroutine vm),
                               (if \<not> isConst
                                then seq [i, pushOp vm OP_Set,
                                          lift (pushAddress (of_nat subroutineIndex) 0)]
                                else Inr)] p2
                      | None \<Rightarrow> seq [pushOp vm OP_Any, discard (popSubroutine vm)] p2))))"

definition lowerAssignment :: "Contract \<Rightarrow> node \<Rightarrow> span \<Rightarrow> step \<Rightarrow> step" where
  "lowerAssignment vm left operatorToken right =
     (case as_Identifier left of
        Some (isp, name) \<Rightarrow>
          (\<lambda>p. case findSymbol name p of
                 None \<Rightarrow> cannotFind vm isp p
               | Some symbol \<Rightarrow>
                   (case routine symbol of
                      None \<Rightarrow> Inl SymbolHasNoRoutine
                    | Some r \<Rightarrow>
                        seq [right, pushOpNode vm OP_Set (Some operatorToken),
                             (\<lambda>q. Inr (pushAddress (of_nat (sub_index (subroutines q ! r))) 0 q))]
                          p))
      | None \<Rightarrow> fail BinaryLeftNotIdentifier)"

text \<open>
  \<^verbatim>\<open>Compiler::handle\<close>, one equation for each \<^verbatim>\<open>case\<close> of the \<^verbatim>\<open>switch\<close>; the kinds with no
  \<^verbatim>\<open>case\<close> fall to \<^verbatim>\<open>default\<close> and emit nothing.
\<close>

fun handle :: "Contract \<Rightarrow> node \<Rightarrow> step" where
  "handle vm (SourceFile sp statements) = seq (map (handle vm) statements)"
| "handle vm (AnyKeyword sp) = pushOpNode vm OP_Any (Some sp)"
| "handle vm (NullKeyword sp) = pushOpNode vm OP_Null (Some sp)"
| "handle vm (UndefinedKeyword sp) = pushOpNode vm OP_Undefined (Some sp)"
| "handle vm (NeverKeyword sp) = pushOpNode vm OP_Never (Some sp)"
| "handle vm (BooleanKeyword sp) = pushOpNode vm OP_Boolean (Some sp)"
| "handle vm (StringKeyword sp) = pushOpNode vm OP_String (Some sp)"
| "handle vm (NumberKeyword sp) = pushOpNode vm OP_Number (Some sp)"
| "handle vm (BigIntLiteral sp text) =
     seq [pushOpNode vm OP_BigIntLiteral (Some sp), lift (pushStorage text)]"
| "handle vm (NumericLiteral sp text) =
     seq [pushOpNode vm OP_NumberLiteral (Some sp), lift (pushStorage text)]"
| "handle vm (StringLiteral sp text) =
     seq [pushOpNode vm OP_StringLiteral (Some sp), lift (pushStorage text)]"
| "handle vm (TrueKeyword sp) = pushOpNode vm OP_True (Some sp)"
| "handle vm (FalseKeyword sp) = pushOpNode vm OP_False (Some sp)"
| "handle vm (IndexedAccessType sp objectType indexType) =
     (if isLengthIndex indexType
      then seq [handle vm objectType, pushOpNode vm OP_Length (Some sp)]
      else seq [handle vm objectType, handle vm indexType, pushOpNode vm OP_IndexAccess (Some sp)])"
| "handle vm (LiteralType sp literal) = handle vm literal"
| "handle vm (TemplateLiteralType sp head templateSpans) =
     seq [pushFrame vm False,
          (case snd head of
             Some t \<Rightarrow>
               if t \<noteq> []
               then seq [pushOpNode vm OP_StringLiteral (Some (fst head)), lift (pushStorage t)]
               else Inr
           | None \<Rightarrow> Inr),
          seq (map (\<lambda>sub. case sub of
                      TemplateLiteralTypeSpan ssp ty literal \<Rightarrow>
                        seq [handle vm ty, templatePiece vm ssp literal]
                    | _ \<Rightarrow> fail UndefinedBehaviour) templateSpans),
          pushOpNode vm OP_TemplateLiteral (Some sp),
          lift popFrameImplicit]"
| "handle vm (UnionType sp types) =
     seq [pushFrame vm False, seq (map (handle vm) types), pushOpNode vm OP_Union (Some sp),
          lift popFrameImplicit]"
| "handle vm (TypeReference sp typeName typeArguments) =
     lowerTypeReference vm typeName (map_option (map (handle vm)) typeArguments)"
| "handle vm (TypeAliasDeclaration sp name typeParameters ty) =
     lowerTypeAlias vm sp (snd name) (map_option (map (handle vm)) typeParameters) (handle vm ty)"
| "handle vm (Parameter sp name ty questionToken initializer) =
     seq [(case ty of Some t \<Rightarrow> handle vm t | None \<Rightarrow> pushOpNode vm OP_Unknown (Some sp)),
          pushOpNode vm OP_Parameter (Some sp),
          lift (pushStorage (case as_Identifier name of Some i \<Rightarrow> snd i | None \<Rightarrow> [])),
          (case questionToken of Some q \<Rightarrow> pushOpNode vm OP_Optional (Some q) | None \<Rightarrow> Inr),
          (case initializer of
             Some i \<Rightarrow> seq [handle vm i, pushOpNode vm OP_Initializer (Some (node_span i))]
           | None \<Rightarrow> Inr)]"
| "handle vm (TypeParameter sp name defaultType) =
     lowerTypeParameter vm sp name (map_option (handle vm) defaultType)"
| "handle vm (FunctionDeclaration sp name typeParameters parameters ty) =
     (case (case name of None \<Rightarrow> None | Some n \<Rightarrow> as_Identifier n) of
        None \<Rightarrow> Inr
      | Some i \<Rightarrow>
          lowerFunction vm sp i (map_option (map (handle vm)) typeParameters)
            (map (handle vm) parameters) (map_option (handle vm) ty))"
| "handle vm (Identifier sp escapedText typeArguments) =
     lowerIdentifier vm sp escapedText (map_option (map (handle vm)) typeArguments)"
| "handle vm (PropertyAssignment sp name initializer questionToken readonly) =
     seq [(case initializer of Some i \<Rightarrow> handle vm i | None \<Rightarrow> pushOpNode vm OP_Any (Some sp)),
          (case as_Identifier name of
             Some i \<Rightarrow> pushStringLiteral vm (snd i) (fst i)
           | None \<Rightarrow> handle vm name),
          pushOpNode vm OP_PropertySignature (Some (node_span name)),
          (if questionToken then pushOp vm OP_Optional else Inr),
          (if readonly then pushOp vm OP_Readonly else Inr)]"
| "handle vm (PropertySignature sp name ty questionToken readonly) =
     seq [(case ty of Some t \<Rightarrow> handle vm t | None \<Rightarrow> pushOp vm OP_Any),
          (case as_Identifier name of
             Some i \<Rightarrow> pushStringLiteral vm (snd i) (fst i)
           | None \<Rightarrow> handle vm name),
          pushOpNode vm OP_PropertySignature (Some sp),
          (if questionToken then pushOp vm OP_Optional else Inr),
          (if readonly then pushOp vm OP_Readonly else Inr)]"
| "handle vm (InterfaceDeclaration sp name heritageClauses members) =
     seq [pushFrame vm False,
          (case heritageClauses of
             None \<Rightarrow> Inr
           | Some hs \<Rightarrow>
               seq (map (\<lambda>h. case h of
                           HeritageClause hsp extendsToken types \<Rightarrow>
                             if extendsToken then seq (map (handle vm) types) else Inr
                         | _ \<Rightarrow> fail UndefinedBehaviour) hs)),
          seq (map (handle vm) members),
          pushOpNode vm OP_ObjectLiteral (Some name),
          lift popFrameImplicit]"
| "handle vm (TypeLiteral sp members) =
     seq [pushFrame vm False, seq (map (handle vm) members),
          pushOpNode vm OP_ObjectLiteral (Some sp), lift popFrameImplicit]"
| "handle vm (ParenthesizedExpression sp expression) = handle vm expression"
| "handle vm (ExpressionWithTypeArguments sp expression typeArguments) =
     seq [(case typeArguments of None \<Rightarrow> Inr | Some l \<Rightarrow> seq (map (handle vm) l)),
          handle vm expression,
          (case typeArguments of
             None \<Rightarrow> Inr
           | Some l \<Rightarrow> seq [pushOpNode vm OP_Instantiate (Some sp),
                            lift (pushUint16 (of_nat (length l)) 0)])]"
| "handle vm (ObjectLiteralExpression sp properties) =
     seq [pushFrame vm False, seq (map (handle vm) properties),
          pushOpNode vm OP_ObjectLiteral (Some sp), lift popFrameImplicit]"
| "handle vm (CallExpression sp expression typeArguments arguments) =
     seq [(case typeArguments of None \<Rightarrow> Inr | Some l \<Rightarrow> seq (map (handle vm) l)),
          handle vm expression,
          (case typeArguments of
             None \<Rightarrow> Inr
           | Some l \<Rightarrow> seq [pushOpNode vm OP_Instantiate (Some sp),
                            lift (pushUint16 (of_nat (length l)) 0)]),
          seq (map (handle vm) arguments),
          pushOpNode vm OP_CallExpression (Some sp),
          lift (pushUint16 (of_nat (length arguments)) 0)]"
| "handle vm (ExpressionStatement sp expression) = handle vm expression"
| "handle vm (ConditionalExpression sp whenTrue whenFalse) =
     seq [pushFrame vm False, handle vm whenFalse, handle vm whenTrue,
          pushOpNode vm OP_Union (Some sp), lift popFrameImplicit]"
| "handle vm (ConditionalType sp checkType extendsType trueType falseType) =
     lowerConditionalType vm sp (distributiveOver checkType) (handle vm checkType)
       (handle vm extendsType) (handle vm trueType) (handle vm falseType)"
| "handle vm (ParenthesizedType sp ty) = handle vm ty"
| "handle vm (RestType sp ty) = seq [handle vm ty, pushOpNode vm OP_Rest (Some sp)]"
| "handle vm (ArrayLiteralExpression sp elements) =
     seq [pushFrame vm False,
          seq (map (\<lambda>v. seq [handle vm v, pushOpNode vm OP_TupleMember (Some (node_span v))])
                 elements),
          pushOpNode vm OP_Tuple (Some sp),
          lift popFrameImplicit]"
| "handle vm (ArrayType sp elementType) =
     seq [handle vm elementType, pushOpNode vm OP_Array (Some sp)]"
| "handle vm (TupleType sp elements) =
     seq [pushFrame vm False,
          seq (map (\<lambda>e. case e of
                      NamedTupleMember tsp ty dotDotDotToken questionToken \<Rightarrow>
                        seq [handle vm ty,
                             (if dotDotDotToken then pushOp vm OP_Rest else Inr),
                             pushOpNode vm OP_TupleMember (Some tsp),
                             (if questionToken then pushOp vm OP_Optional else Inr)]
                    | OptionalType osp ty \<Rightarrow>
                        seq [handle vm ty, pushOpNode vm OP_TupleMember (Some osp),
                             pushOp vm OP_Optional]
                    | _ \<Rightarrow> seq [handle vm e, pushOpNode vm OP_TupleMember (Some (node_span e))])
                 elements),
          pushOpNode vm OP_Tuple (Some sp),
          lift popFrameImplicit]"
| "handle vm (BinaryExpression sp left equalsToken operatorToken right) =
     (if equalsToken then lowerAssignment vm left operatorToken (handle vm right)
      else fail BinaryOperatorNotHandled)"
| "handle vm (VariableStatement sp declarationList) = seq (map (handle vm) declarationList)"
| "handle vm (VariableDeclaration sp name ty initializer isConst) =
     (case as_Identifier name of
        None \<Rightarrow> Inr
      | Some i \<Rightarrow>
          lowerVariable vm i (map_option (handle vm) ty) (map_option (handle vm) initializer)
            isConst)"
| "handle vm (TemplateLiteralTypeSpan sp ty literal) = Inr"
| "handle vm (TemplateMiddle sp rawText) = Inr"
| "handle vm (TemplateTail sp rawText) = Inr"
| "handle vm (HeritageClause sp extendsToken types) = Inr"
| "handle vm (NamedTupleMember sp ty dotDotDotToken questionToken) = Inr"
| "handle vm (OptionalType sp ty) = Inr"
| "handle vm (Unhandled sp) = Inr"

definition compileSourceFile :: "Contract \<Rightarrow> node \<Rightarrow> error + Program" where
  "compileSourceFile vm file = handle vm file Program_new"

section \<open>Sample inputs\<close>

text \<open>
  A contract to run the compiler on concrete inputs: the opcodes numbered in the order of
  the datatype above, the one error code 0, a constant hash, and every section constructed
  with \<^verbatim>\<open>isBlockTailCall\<close> reading as clear. The choice is arbitrary; the general theorems
  are stated for every contract.
\<close>

definition sample_opcode :: "OP \<Rightarrow> byte" where
  "sample_opcode op =
     (case op of
        OP_Noop \<Rightarrow> 0 | OP_Jump \<Rightarrow> 1 | OP_Halt \<Rightarrow> 2 | OP_SourceMap \<Rightarrow> 3 | OP_Main \<Rightarrow> 4
      | OP_Subroutine \<Rightarrow> 5 | OP_Never \<Rightarrow> 6 | OP_Any \<Rightarrow> 7 | OP_Unknown \<Rightarrow> 8 | OP_Null \<Rightarrow> 9
      | OP_Undefined \<Rightarrow> 10 | OP_String \<Rightarrow> 11 | OP_Number \<Rightarrow> 12 | OP_Boolean \<Rightarrow> 13
      | OP_True \<Rightarrow> 14 | OP_False \<Rightarrow> 15 | OP_StringLiteral \<Rightarrow> 16 | OP_NumberLiteral \<Rightarrow> 17
      | OP_BigIntLiteral \<Rightarrow> 18 | OP_Frame \<Rightarrow> 19 | OP_FrameEnd \<Rightarrow> 20
      | OP_FrameReturnJump \<Rightarrow> 21 | OP_Return \<Rightarrow> 22 | OP_Call \<Rightarrow> 23 | OP_TailCall \<Rightarrow> 24
      | OP_Rest \<Rightarrow> 25 | OP_RestReuse \<Rightarrow> 26 | OP_Union \<Rightarrow> 27 | OP_Intersection \<Rightarrow> 28
      | OP_Class \<Rightarrow> 29 | OP_ObjectLiteral \<Rightarrow> 30 | OP_Tuple \<Rightarrow> 31 | OP_TupleMember \<Rightarrow> 32
      | OP_Array \<Rightarrow> 33 | OP_Length \<Rightarrow> 34 | OP_IndexAccess \<Rightarrow> 35 | OP_TemplateLiteral \<Rightarrow> 36
      | OP_Loads \<Rightarrow> 37 | OP_Parameter \<Rightarrow> 38 | OP_Optional \<Rightarrow> 39 | OP_Readonly \<Rightarrow> 40
      | OP_Initializer \<Rightarrow> 41 | OP_TypeArgument \<Rightarrow> 42 | OP_TypeArgumentDefault \<Rightarrow> 43
      | OP_Function \<Rightarrow> 44 | OP_FunctionRef \<Rightarrow> 45 | OP_PropertySignature \<Rightarrow> 46
      | OP_Instantiate \<Rightarrow> 47 | OP_CallExpression \<Rightarrow> 48 | OP_Distribute \<Rightarrow> 49
      | OP_Extends \<Rightarrow> 50 | OP_JumpCondition \<Rightarrow> 51 | OP_Set \<Rightarrow> 52 | OP_Assign \<Rightarrow> 53
      | OP_Widen \<Rightarrow> 54 | OP_Error \<Rightarrow> 55)"

definition sample_contract :: Contract where
  "sample_contract = \<lparr>opcode = sample_opcode, errorCode = (\<lambda>c. 0), runtime_hash = (\<lambda>s. 0),
     indeterminate = (\<lambda>i j. False)\<rparr>"

text \<open>
  A program whose root frame declares \<open>T\<close> and whose current frame is a child of the
  root that declares \<open>U\<close>: \<^verbatim>\<open>findSymbol\<close> reaches \<open>T\<close>, the current frame does not hold it.
\<close>

definition program_in_child_frame :: Program where
  "program_in_child_frame =
     fst (pushSymbolForRoutine sample_contract ''U'' ST_Type (20, 40)
            (newFrame (fst (pushSymbolForRoutine sample_contract ''T'' ST_Type (0, 20)
                              Program_new))))"

text \<open>
  The source \<^verbatim>\<open>type T = string | number;\<close> as the parser delivers it (scenario S1 of the
  spec), with the spans of its 27 characters.
\<close>

definition source_alias_union :: node where
  "source_alias_union =
     SourceFile (0, 27)
       [TypeAliasDeclaration (0, 27) ((5, 6), ''T'') None
          (UnionType (9, 26) [StringKeyword (9, 15), NumberKeyword (18, 26)])]"

text \<open>What a compilation leaves in the subroutine table: the names and the code.\<close>

definition compiled_names :: "Contract \<Rightarrow> node \<Rightarrow> string list option" where
  "compiled_names vm file =
     (case compileSourceFile vm file of
        Inl e \<Rightarrow> None
      | Inr p \<Rightarrow> Some (map sub_identifier (subroutines p)))"

definition compiled_ops :: "Contract \<Rightarrow> node \<Rightarrow> byte list list option" where
  "compiled_ops vm file =
     (case compileSourceFile vm file of
        Inl e \<Rightarrow> None
      | Inr p \<Rightarrow> Some (map sub_ops (subroutines p)))"

definition compiled_main :: "Contract \<Rightarrow> node \<Rightarrow> byte list option" where
  "compiled_main vm file =
     (case compileSourceFile vm file of Inl e \<Rightarrow> None | Inr p \<Rightarrow> Some (ops p))"

definition compiled_usages :: "Contract \<Rightarrow> node \<Rightarrow> TypeArgumentUsage list list list option" where
  "compiled_usages vm file =
     (case compileSourceFile vm file of
        Inl e \<Rightarrow> None
      | Inr p \<Rightarrow> Some (map (\<lambda>s. map typeArgumentUsages (sections s)) (subroutines p)))"

text \<open>
  \<^verbatim>\<open>type A = X;\<close> where nothing declares \<open>X\<close>: the reference is lowered while the
  subroutine of \<open>A\<close> is active.
\<close>

definition source_unknown_reference :: node where
  "source_unknown_reference =
     SourceFile (0, 11)
       [TypeAliasDeclaration (0, 11) ((5, 6), ''A'') None
          (TypeReference (9, 10) (Identifier (9, 10) ''X'' None) None)]"

text \<open>
  The state in which the body of \<^verbatim>\<open>type A = ...\<close> is lowered: \<open>A\<close> declared, its
  subroutine active.
\<close>

definition program_in_alias :: Program where
  "program_in_alias =
     (case pushSubroutine ''A''
             (fst (pushSymbolForRoutine sample_contract ''A'' ST_Type (0, 11) Program_new)) of
        Inl e \<Rightarrow> Program_new
      | Inr (p, i) \<Rightarrow> p)"

text \<open>
  \<^verbatim>\<open>function f<T>(x = T) {}\<close>: the initializer of the parameter is the bare identifier
  \<open>T\<close>, which resolves to the type argument. \<^verbatim>\<open>function f<T>(x: T) {}\<close> names the same
  symbol through a type reference.
\<close>

definition source_identifier_usage :: node where
  "source_identifier_usage =
     SourceFile (0, 23)
       [FunctionDeclaration (0, 23) (Some (Identifier (9, 10) ''f'' None))
          (Some [TypeParameter (11, 12) ((11, 12), ''T'') None])
          [Parameter (14, 19) (Identifier (14, 15) ''x'' None) None None
             (Some (Identifier (18, 19) ''T'' None))]
          None]"

definition source_reference_usage :: node where
  "source_reference_usage =
     SourceFile (0, 22)
       [FunctionDeclaration (0, 22) (Some (Identifier (9, 10) ''f'' None))
          (Some [TypeParameter (11, 12) ((11, 12), ''T'') None])
          [Parameter (14, 18) (Identifier (14, 15) ''x'' None)
             (Some (TypeReference (17, 18) (Identifier (17, 18) ''T'' None) None)) None None]
          None]"

text \<open>The program that compiling \<^verbatim>\<open>type T = string | number;\<close> leaves.\<close>

definition program_alias_union :: Program where
  "program_alias_union =
     (case compileSourceFile sample_contract source_alias_union of
        Inl e \<Rightarrow> Program_new
      | Inr p \<Rightarrow> p)"

section \<open>The layout of the storage block\<close>

text \<open>The bytes \<^verbatim>\<open>build\<close> writes for one storage entry: hash, length, text.\<close>

definition storage_entry :: "Contract \<Rightarrow> string \<Rightarrow> byte list" where
  "storage_entry vm item =
     u64_bytes (runtime_hash vm item) @ u16_bytes (of_nat (length item)) @ map of_char item"

definition storage_block :: "Contract \<Rightarrow> string list \<Rightarrow> byte list" where
  "storage_block vm items = concat (map (storage_entry vm) items)"

section \<open>Tail sections, as the spec words them\<close>

text \<open>
  The spec (4.D): a section is ended iff it has no next sibling and its op count is 0, or
  its next sibling chain is ended.
\<close>

inductive ended_spec :: "Section list \<Rightarrow> Section \<Rightarrow> bool" where
  ended_last: "sec_next s < 0 \<Longrightarrow> sec_ops s = 0 \<Longrightarrow> ended_spec secs s"
| ended_next: "0 \<le> sec_next s \<Longrightarrow> nat (sec_next s) < length secs
     \<Longrightarrow> ended_spec secs (secs ! nat (sec_next s)) \<Longrightarrow> ended_spec secs s"

text \<open>
  Walking upward from the \<^verbatim>\<open>up\<close> of a section, every ancestor is ended and none blocks
  tail calls.
\<close>

inductive ancestors_spec :: "Section list \<Rightarrow> Section \<Rightarrow> bool" where
  ancestors_root: "sec_up s < 0 \<Longrightarrow> ancestors_spec secs s"
| ancestors_up: "0 \<le> sec_up s \<Longrightarrow> nat (sec_up s) < length secs
     \<Longrightarrow> \<not> isBlockTailCall (secs ! nat (sec_up s))
     \<Longrightarrow> ended_spec secs (secs ! nat (sec_up s))
     \<Longrightarrow> ancestors_spec secs (secs ! nat (sec_up s))
     \<Longrightarrow> ancestors_spec secs s"

text \<open>The four criteria of a tail section.\<close>

definition tail_spec :: "Section list \<Rightarrow> Section \<Rightarrow> bool" where
  "tail_spec secs s =
     (\<not> hasChild s \<and> \<not> isBlockTailCall s
      \<and> (sec_next s < 0
           \<or> nat (sec_next s) < length secs \<and> ended_spec secs (secs ! nat (sec_next s)))
      \<and> ancestors_spec secs s)"

text \<open>
  \<^verbatim>\<open>type B = string; type C = number; type A<T> = string extends T ? B : C;\<close> The check
  type is a keyword, so the conditional type does not distribute, and each branch is a
  call. \<open>subroutine_with_branches\<close> is the subroutine of \<open>A\<close> as \<^verbatim>\<open>popSubroutine\<close> hands it
  to \<^verbatim>\<open>optimise\<close>, after \<^verbatim>\<open>end()\<close>: the two aliases compiled, \<open>A\<close> declared and made
  active, then its type parameter and its body lowered.
\<close>

definition source_aliases :: node where
  "source_aliases =
     SourceFile (0, 33)
       [TypeAliasDeclaration (0, 16) ((5, 6), ''B'') None (StringKeyword (9, 15)),
        TypeAliasDeclaration (17, 33) ((22, 23), ''C'') None (NumberKeyword (26, 32))]"

definition conditional_calls :: node where
  "conditional_calls =
     ConditionalType (46, 70) (StringKeyword (46, 52))
       (TypeReference (61, 62) (Identifier (61, 62) ''T'' None) None)
       (TypeReference (65, 66) (Identifier (65, 66) ''B'' None) None)
       (TypeReference (69, 70) (Identifier (69, 70) ''C'' None) None)"

definition source_branch_calls :: node where
  "source_branch_calls =
     SourceFile (0, 71)
       [TypeAliasDeclaration (0, 16) ((5, 6), ''B'') None (StringKeyword (9, 15)),
        TypeAliasDeclaration (17, 33) ((22, 23), ''C'') None (NumberKeyword (26, 32)),
        TypeAliasDeclaration (34, 71) ((39, 40), ''A'')
          (Some [TypeParameter (41, 42) ((41, 42), ''T'') None]) conditional_calls]"

definition subroutine_with_branches :: Subroutine where
  "subroutine_with_branches =
     (case seq [handle sample_contract source_aliases,
                lift (\<lambda>p. fst (pushSymbolForRoutine sample_contract ''A'' ST_Type (34, 71) p)),
                discard (pushSubroutine ''A''),
                handle sample_contract (TypeParameter (41, 42) ((41, 42), ''T'') None),
                handle sample_contract conditional_calls] Program_new of
        Inl e \<Rightarrow> Subroutine_new False []
      | Inr p \<Rightarrow>
          (case sub_end (activeSubroutine (popFrameImplicit p)) of
             Inl e \<Rightarrow> Subroutine_new False []
           | Inr s \<Rightarrow> s))"

text \<open>
  \<^verbatim>\<open>type Id<T> = T;\<close> (scenario S2 of the spec), and the sample contract with every
  section constructed with \<^verbatim>\<open>isBlockTailCall\<close> reading as set.
\<close>

definition source_identity_generic :: node where
  "source_identity_generic =
     SourceFile (0, 15)
       [TypeAliasDeclaration (0, 15) ((5, 7), ''Id'')
          (Some [TypeParameter (8, 9) ((8, 9), ''T'') None])
          (TypeReference (13, 14) (Identifier (13, 14) ''T'' None) None)]"

definition sample_contract_flag_set :: Contract where
  "sample_contract_flag_set = sample_contract\<lparr>indeterminate := (\<lambda>i j. True)\<rparr>"




section \<open>Well-formed programs and appended code\<close>

text \<open>
  The links of a section vector as \<^verbatim>\<open>pushSection\<close> and \<^verbatim>\<open>popSection\<close> make them: a
  \<^verbatim>\<open>next\<close> points forward into the vector, an \<^verbatim>\<open>up\<close> backward.
\<close>

definition linked :: "Section list \<Rightarrow> bool" where
  "linked secs =
     (\<forall>i \<in> set [0 ..< length secs].
        (0 \<le> sec_next (secs ! i) \<longrightarrow>
           int i < sec_next (secs ! i) \<and> nat (sec_next (secs ! i)) < length secs)
        \<and> (0 \<le> sec_up (secs ! i) \<longrightarrow> sec_up (secs ! i) < int i))"

text \<open>
  What holds of every program state the compiler reaches: an active subroutine is one of
  the program's, every symbol of the open frames has been declared at least once, and the
  sections of every subroutine are linked.
\<close>

fun declared_ok :: "Frame \<Rightarrow> bool" where
  "declared_ok (Frame c prev i a syms) =
     ((\<forall>s \<in> set syms. 0 < declarations s)
      \<and> (case prev of None \<Rightarrow> True | Some f \<Rightarrow> declared_ok f))"

definition wf_program :: "Program \<Rightarrow> bool" where
  "wf_program p =
     ((\<forall>i \<in> set (activeSubroutines p). i < length (subroutines p))
      \<and> declared_ok (frame p)
      \<and> (\<forall>s \<in> set (subroutines p). linked (sections s)))"

text \<open>
  \<open>grows p p'\<close>: the code of the main program and of every subroutine of \<open>p\<close> is still
  there in \<open>p'\<close>, with more code after it at most. \<open>extends_program\<close>: and the same
  subroutines are active. A step is \<open>appending\<close> when it takes a well-formed program to a
  well-formed program that extends it.
\<close>

definition grows :: "Program \<Rightarrow> Program \<Rightarrow> bool" where
  "grows p p' =
     (length (subroutines p) \<le> length (subroutines p')
      \<and> prefix (ops p) (ops p')
      \<and> (\<forall>j < length (subroutines p).
            prefix (sub_ops (subroutines p ! j)) (sub_ops (subroutines p' ! j))))"

definition extends_program :: "Program \<Rightarrow> Program \<Rightarrow> bool" where
  "extends_program p p' = (activeSubroutines p' = activeSubroutines p \<and> grows p p')"

definition appending :: "step \<Rightarrow> bool" where
  "appending f =
     (\<forall>p p'. wf_program p \<longrightarrow> f p = Inr p' \<longrightarrow> wf_program p' \<and> extends_program p p')"

section \<open>Properties\<close>

subsection \<open>Basic facts\<close>

lemma find_None_iff: "find P xs = None \<longleftrightarrow> (\<forall>x\<in>set xs. \<not> P x)"
  by (induction xs) auto

lemma sub_pushOp_ok:
  assumes "isIgnoreNextSectionOP s \<or> activeSection s < length (sections s)"
  shows "\<exists>s'. sub_pushOp vm op s = Inr s' \<and> sub_ops s' = sub_ops s @ [opcode vm op]"
proof (cases "isIgnoreNextSectionOP s")
  case True
  then show ?thesis by (simp add: sub_pushOp_def Let_def)
next
  case False
  with assms have "activeSection s < length (sections s)" by simp
  with False show ?thesis by (simp add: sub_pushOp_def onActiveSection_def Let_def)
qed

lemma pushOp_ops:
  assumes "activeSubroutines p \<noteq> [] \<longrightarrow>
             last (activeSubroutines p) < length (subroutines p) \<and>
             (isIgnoreNextSectionOP (activeSubroutine p) \<or>
              activeSection (activeSubroutine p) < length (sections (activeSubroutine p)))"
  shows "\<exists>p'. pushOp vm op p = Inr p' \<and> frame p' = frame p
            \<and> activeSubroutines p' = activeSubroutines p
            \<and> getOPs p' = getOPs p @ [opcode vm op]"
proof (cases "activeSubroutines p = []")
  case True
  then show ?thesis by (simp add: pushOp_def getOPs_def)
next
  case False
  with assms have i: "last (activeSubroutines p) < length (subroutines p)"
    and s: "isIgnoreNextSectionOP (activeSubroutine p) \<or>
              activeSection (activeSubroutine p) < length (sections (activeSubroutine p))"
    by auto
  from sub_pushOp_ok [OF s, of vm op]
  obtain s' where s': "sub_pushOp vm op (activeSubroutine p) = Inr s'"
    and o: "sub_ops s' = sub_ops (activeSubroutine p) @ [opcode vm op]"
    by blast
  show ?thesis
    using False i s' o
    by (simp add: pushOp_def onActive_def getOPs_def activeSubroutine_def)
qed

lemma not_in_names: "n \<notin> set (map f xs) \<Longrightarrow> \<forall>s \<in> set xs. f s \<noteq> n"
  by auto

subsection \<open>Storage addresses\<close>

text \<open>
  C7. \<^verbatim>\<open>registerStorage\<close> returns 5 for the first registration of a compilation; each
  registration returns the storage index it finds (5 when it finds 0) and advances it by
  8 + 2 + the length of the text; the text is appended each time, so registering the same
  text twice leaves two entries, and the two addresses differ. The addresses are 32-bit:
  the hypothesis is on the program before the registration, whose storage index (5 when it
  is 0) has room below \<open>2 ^ 32\<close> for one entry of the text.
\<close>

theorem registerStorage_addresses:
  assumes "unat (if storageIndex p = 0 then 1 + 4 else storageIndex p) + 8 + 2 + length s
             < 2 ^ 32"
  shows "snd (registerStorage s Program_new) = 1 + 4
       \<and> snd (registerStorage s p) = (if storageIndex p = 0 then 1 + 4 else storageIndex p)
       \<and> storageIndex (fst (registerStorage s p))
           = snd (registerStorage s p) + 8 + 2 + of_nat (length s)
       \<and> storage (fst (registerStorage s p)) = storage p @ [s]
       \<and> storage (fst (registerStorage s (fst (registerStorage s p)))) = storage p @ [s, s]
       \<and> snd (registerStorage s (fst (registerStorage s p)))
           = snd (registerStorage s p) + 8 + 2 + of_nat (length s)
       \<and> snd (registerStorage s (fst (registerStorage s p))) \<noteq> snd (registerStorage s p)"
proof -
  let ?a = "snd (registerStorage s p)"
  have a: "?a = (if storageIndex p = 0 then 1 + 4 else storageIndex p)"
    by (simp add: registerStorage_def Let_def)
  have room: "unat ?a + 8 + 2 + length s < 2 ^ 32"
    using assms unfolding a .
  have nz: "storageIndex (fst (registerStorage s p)) = ?a + 8 + 2 + of_nat (length s)"
    by (simp add: registerStorage_def Let_def)
  have u: "unat (?a + 8 + 2 + of_nat (length s)) = unat ?a + 8 + 2 + length s"
    using room by (simp add: unat_word_ariths unat_of_nat take_bit_nat_eq_self)
  have pos: "?a + 8 + 2 + of_nat (length s) \<noteq> 0"
    using u by (metis add_is_0 unat_0 zero_neq_numeral)
  have ne: "?a + 8 + 2 + of_nat (length s) \<noteq> ?a"
    using u by (metis add_cancel_right_right add_is_0 add.assoc zero_neq_numeral)
  have second: "snd (registerStorage s (fst (registerStorage s p))) = ?a + 8 + 2 + of_nat (length s)"
    using pos nz by (simp add: registerStorage_def Let_def)
  show ?thesis
    using a nz second ne
    by (simp add: registerStorage_def Let_def Program_new_def)
qed

theorem registerStorage_addresses_witness:
  "snd (registerStorage ''T'' Program_new) = 5
   \<and> snd (registerStorage ''T'' (fst (registerStorage ''T'' Program_new))) = 16
   \<and> storage (fst (registerStorage ''T'' (fst (registerStorage ''T'' Program_new))))
       = [''T'', ''T'']"
proof -
  have h: "unat (if storageIndex Program_new = 0 then 1 + 4 else storageIndex Program_new)
             + 8 + 2 + length ''T'' < 2 ^ 32"
    by (simp add: Program_new_def)
  show ?thesis
    using registerStorage_addresses [OF h]
    by (simp add: Program_new_def)
qed

subsection \<open>Finding the subroutine of a name\<close>

text \<open>
  C8, as the spec states it, fails: in \<open>program_in_child_frame\<close> the name \<open>T\<close> is in the
  chain of the current frame (\<^verbatim>\<open>findSymbol\<close> finds it), and \<^verbatim>\<open>pushSubroutine\<close> raises
  "no symbol found".
\<close>

theorem pushSubroutine_chain_counterexample:
  "findSymbol ''T'' program_in_child_frame \<noteq> None
   \<and> pushSubroutine ''T'' program_in_child_frame = Inl (NoSymbolFound ''T'')"
  by code_simp

text \<open>
  C8, amended. \<^verbatim>\<open>pushSubroutine\<close> searches the symbols of the current frame only, and
  raises "no symbol found" exactly when none of them has the name.
\<close>

theorem pushSubroutine_current_frame_only:
  "(pushSubroutine name p = Inl (NoSymbolFound name))
     \<longleftrightarrow> (\<forall>s \<in> set (symbols (frame p)). sym_name s \<noteq> name)"
proof
  assume "pushSubroutine name p = Inl (NoSymbolFound name)"
  then have "find (\<lambda>s. sym_name s = name) (symbols (frame p)) = None"
    by (auto simp: pushSubroutine_def Let_def split: option.splits)
  then show "\<forall>s \<in> set (symbols (frame p)). sym_name s \<noteq> name"
    by (simp add: find_None_iff)
next
  assume "\<forall>s \<in> set (symbols (frame p)). sym_name s \<noteq> name"
  then have "find (\<lambda>s. sym_name s = name) (symbols (frame p)) = None"
    by (simp add: find_None_iff)
  then show "pushSubroutine name p = Inl (NoSymbolFound name)"
    by (simp add: pushSubroutine_def)
qed

theorem pushSubroutine_current_frame_only_witness:
  "map sym_name (symbols (frame program_in_child_frame)) = [''U'']
   \<and> pushSubroutine ''T'' program_in_child_frame = Inl (NoSymbolFound ''T'')"
proof -
  have names: "map sym_name (symbols (frame program_in_child_frame)) = [''U'']"
    by code_simp
  have "''T'' \<notin> set (map sym_name (symbols (frame program_in_child_frame)))"
    unfolding names by simp
  then have h: "\<forall>s \<in> set (symbols (frame program_in_child_frame)). sym_name s \<noteq> ''T''"
    by (rule not_in_names)
  from pushSubroutine_current_frame_only [THEN iffD2, OF h] names
  show ?thesis by (rule conjI [rotated])
qed

subsection \<open>Type argument usages\<close>

text \<open>
  C9. What \<^verbatim>\<open>Section::registerTypeArgumentUsage\<close> leaves after a symbol is registered at
  ip \<open>i\<close> and again at ip \<open>j\<close> in a new section: one usage, whose \<^verbatim>\<open>symbolIndex\<close> is the
  second ip and whose \<^verbatim>\<open>ip\<close> is the first. The pair is no longer (index of the symbol, ip).
\<close>

theorem registerTypeArgumentUsage_repeated:
  "typeArgumentUsages
     (sec_registerTypeArgumentUsage symbol j
        (sec_registerTypeArgumentUsage symbol i (Section_new b st u)))
   = [\<lparr>symbolIndex = j, ip = i\<rparr>]"
  by (simp add: sec_registerTypeArgumentUsage_def Section_new_def)

subsection \<open>Popping the root frame\<close>

text \<open>
  C10. When the current frame has no previous frame, \<^verbatim>\<open>popFrame\<close> still appends
  \<^verbatim>\<open>FrameEnd\<close> to the current code and leaves the current frame as it is, and
  \<^verbatim>\<open>popFrameImplicit\<close> changes nothing. The second hypothesis is that of any \<^verbatim>\<open>pushOp\<close>:
  an active subroutine is one of the program's, and its active section exists.
\<close>

theorem popFrame_at_root:
  assumes "previous (frame p) = None"
    and "activeSubroutines p \<noteq> [] \<longrightarrow>
           last (activeSubroutines p) < length (subroutines p) \<and>
           (isIgnoreNextSectionOP (activeSubroutine p) \<or>
            activeSection (activeSubroutine p) < length (sections (activeSubroutine p)))"
  shows "(\<exists>p'. popFrame vm p = Inr p' \<and> frame p' = frame p
             \<and> getOPs p' = getOPs p @ [opcode vm OP_FrameEnd])
       \<and> popFrameImplicit p = p"
proof -
  from pushOp_ops [OF assms(2), of vm OP_FrameEnd]
  obtain p1 where p1: "pushOp vm OP_FrameEnd p = Inr p1" "frame p1 = frame p"
    "activeSubroutines p1 = activeSubroutines p"
    "getOPs p1 = getOPs p @ [opcode vm OP_FrameEnd]"
    by blast
  have "popFrameImplicit p1 = p1"
    using assms(1) p1(2) by (simp add: popFrameImplicit_def)
  then have "popFrame vm p = Inr p1"
    using p1(1) by (simp add: popFrame_def)
  moreover have "popFrameImplicit p = p"
    using assms(1) by (simp add: popFrameImplicit_def)
  ultimately show ?thesis using p1 by simp
qed

theorem popFrame_at_root_witness:
  "previous (frame Program_new) = None
   \<and> (\<exists>p'. popFrame sample_contract Program_new = Inr p' \<and> frame p' = frame Program_new
           \<and> getOPs p' = getOPs Program_new @ [opcode sample_contract OP_FrameEnd])
   \<and> popFrameImplicit Program_new = Program_new"
proof -
  have h1: "previous (frame Program_new) = None" by (simp add: Program_new_def)
  have h2: "activeSubroutines Program_new \<noteq> [] \<longrightarrow>
           last (activeSubroutines Program_new) < length (subroutines Program_new) \<and>
           (isIgnoreNextSectionOP (activeSubroutine Program_new) \<or>
            activeSection (activeSubroutine Program_new)
              < length (sections (activeSubroutine Program_new)))"
    by (simp add: Program_new_def)
  show ?thesis using h1 popFrame_at_root [OF h1 h2] by simp
qed

subsection \<open>Tail calls\<close>

lemma ended_spec_iff:
  "ended_spec secs s \<longleftrightarrow>
     (if 0 \<le> sec_next s
      then nat (sec_next s) < length secs \<and> ended_spec secs (secs ! nat (sec_next s))
      else sec_ops s = 0)"
  by (subst ended_spec.simps) auto

lemma ancestors_spec_iff:
  "ancestors_spec secs s \<longleftrightarrow>
     (sec_up s < 0 \<or>
      nat (sec_up s) < length secs \<and> \<not> isBlockTailCall (secs ! nat (sec_up s))
        \<and> ended_spec secs (secs ! nat (sec_up s))
        \<and> ancestors_spec secs (secs ! nat (sec_up s)))"
  by (subst ancestors_spec.simps) auto

lemma ended_sound:
  assumes "ended secs s = Some b"
  shows "b = ended_spec secs s"
  using assms
proof (rule ended.raw_induct [rotated 1, where P = "\<lambda>secs s b. b = ended_spec secs s"])
  fix ended' and secs :: "Section list" and s :: Section and b
  assume IH: "\<And>secs s b. ended' secs s = Some b \<Longrightarrow> b = ended_spec secs s"
    and step: "(if 0 \<le> sec_next s
      then if nat (sec_next s) < length secs
           then ended' secs (secs ! nat (sec_next s)) else None
      else Some (sec_ops s = 0)) = Some b"
  show "b = ended_spec secs s"
  proof (cases "0 \<le> sec_next s")
    case True
    with step have r: "nat (sec_next s) < length secs"
      and e: "ended' secs (secs ! nat (sec_next s)) = Some b"
      by (auto split: if_splits)
    from IH [OF e] have "b = ended_spec secs (secs ! nat (sec_next s))" .
    with True r show ?thesis by (subst ended_spec_iff) simp
  next
    case False
    with step have "b = (sec_ops s = 0)" by auto
    with False show ?thesis by (subst ended_spec_iff) simp
  qed
qed

lemma tail_ancestors_sound:
  assumes "tail_ancestors secs a = Some b"
  shows "b = (\<not> isBlockTailCall a \<and> ended_spec secs a \<and> ancestors_spec secs a)"
  using assms
proof (rule tail_ancestors.raw_induct [rotated 1, where P = "\<lambda>secs a b.
         b = (\<not> isBlockTailCall a \<and> ended_spec secs a \<and> ancestors_spec secs a)"])
  fix walk and secs :: "Section list" and a :: Section and b
  assume IH: "\<And>secs a b. walk secs a = Some b \<Longrightarrow>
          b = (\<not> isBlockTailCall a \<and> ended_spec secs a \<and> ancestors_spec secs a)"
    and step: "(if isBlockTailCall a then Some False
      else Option.bind (ended secs a)
            (\<lambda>e. if \<not> e then Some False
                 else if 0 \<le> sec_up a
                      then if nat (sec_up a) < length secs
                           then walk secs (secs ! nat (sec_up a))
                           else None
                      else Some True)) = Some b"
  show "b = (\<not> isBlockTailCall a \<and> ended_spec secs a \<and> ancestors_spec secs a)"
  proof (cases "isBlockTailCall a")
    case True
    with step show ?thesis by simp
  next
    case False
    with step obtain e where e: "ended secs a = Some e"
      and r: "(if \<not> e then Some False
               else if 0 \<le> sec_up a
                    then if nat (sec_up a) < length secs
                         then walk secs (secs ! nat (sec_up a)) else None
                    else Some True) = Some b"
      by (auto simp: bind_eq_Some_conv)
    from ended_sound [OF e] have es: "e = ended_spec secs a" .
    show ?thesis
    proof (cases e)
      case False
      with r es \<open>\<not> isBlockTailCall a\<close> show ?thesis by simp
    next
      case True
      show ?thesis
      proof (cases "0 \<le> sec_up a")
        case up: True
        with True r have rng: "nat (sec_up a) < length secs"
          and w: "walk secs (secs ! nat (sec_up a)) = Some b"
          by (auto split: if_splits)
        from IH [OF w] have "b = (\<not> isBlockTailCall (secs ! nat (sec_up a))
            \<and> ended_spec secs (secs ! nat (sec_up a)) \<and> ancestors_spec secs (secs ! nat (sec_up a)))" .
        with up rng True es \<open>\<not> isBlockTailCall a\<close> show ?thesis
          by (subst ancestors_spec_iff) auto
      next
        case up: False
        with True r have "b" by simp
        with up True es \<open>\<not> isBlockTailCall a\<close> show ?thesis
          by (subst ancestors_spec_iff) auto
      qed
    qed
  qed
qed

lemma tail_section_sound:
  assumes "tail_section secs s = Some b"
  shows "b = tail_spec secs s"
proof (cases "hasChild s \<or> isBlockTailCall s")
  case True
  with assms have "\<not> b" by (auto simp: tail_section_def split: if_splits)
  with True show ?thesis by (auto simp: tail_spec_def)
next
  case False
  with assms obtain e where e: "(if 0 \<le> sec_next s then ended secs s else Some True) = Some e"
    and r: "(if \<not> e then Some False
             else if 0 \<le> sec_up s
                  then if nat (sec_up s) < length secs
                       then tail_ancestors secs (secs ! nat (sec_up s)) else None
                  else Some True) = Some b"
    by (auto simp: tail_section_def bind_eq_Some_conv)
  have es: "e = (sec_next s < 0
           \<or> nat (sec_next s) < length secs \<and> ended_spec secs (secs ! nat (sec_next s)))"
  proof (cases "0 \<le> sec_next s")
    case True
    with e have "ended secs s = Some e" by simp
    from ended_sound [OF this] have "e = ended_spec secs s" .
    with True show ?thesis by (subst (asm) ended_spec_iff) simp
  next
    case False
    with e show ?thesis by simp
  qed
  show ?thesis
  proof (cases e)
    case no: False
    with r have "\<not> b" by simp
    with no es show ?thesis by (auto simp: tail_spec_def)
  next
    case yes: True
    show ?thesis
    proof (cases "0 \<le> sec_up s")
      case up: True
      with yes r have rng: "nat (sec_up s) < length secs"
        and w: "tail_ancestors secs (secs ! nat (sec_up s)) = Some b"
        by (auto split: if_splits)
      from tail_ancestors_sound [OF w] up rng yes es False show ?thesis
        unfolding tail_spec_def by (subst ancestors_spec_iff) auto
    next
      case up: False
      with yes r have "b" by simp
      with up yes es False show ?thesis
        unfolding tail_spec_def by (subst ancestors_spec_iff) auto
    qed
  qed
qed


lemma rest_reuse_effect:
  "rest_reuse vm us b = Some b' \<Longrightarrow>
   length b' = length b \<and>
   (\<forall>i < length b. b' ! i = b ! i \<or> (b ! i = opcode vm OP_Rest \<and> b' ! i = opcode vm OP_RestReuse))"
proof (induction us arbitrary: b)
  case Nil
  then show ?case by simp
next
  case (Cons u us)
  let ?b1 = "if b ! ip u = opcode vm OP_Rest then b[ip u := opcode vm OP_RestReuse] else b"
  from Cons.prems have r: "ip u < length b" and rec: "rest_reuse vm us ?b1 = Some b'"
    by (auto split: if_splits)
  have l1: "length ?b1 = length b" by simp
  have s1: "\<forall>i < length b. ?b1 ! i = b ! i \<or> (b ! i = opcode vm OP_Rest \<and> ?b1 ! i = opcode vm OP_RestReuse)"
  proof (intro allI impI)
    fix i assume "i < length b"
    then show "?b1 ! i = b ! i \<or> (b ! i = opcode vm OP_Rest \<and> ?b1 ! i = opcode vm OP_RestReuse)"
      by (cases "i = ip u") simp_all
  qed
  from Cons.IH [OF rec] l1
  have l2: "length b' = length b"
    and s2: "\<forall>i < length b. b' ! i = ?b1 ! i \<or> (?b1 ! i = opcode vm OP_Rest \<and> b' ! i = opcode vm OP_RestReuse)"
    by simp_all
  have "b' ! i = b ! i \<or> (b ! i = opcode vm OP_Rest \<and> b' ! i = opcode vm OP_RestReuse)"
    if "i < length b" for i
    using s1 [rule_format, OF that] s2 [rule_format, OF that] by metis
  with l2 show ?case by blast
qed

lemma rewrite_tail_effect:
  assumes "rewrite_tail vm s b = Some b'"
  shows "length b' = length b"
    and "\<forall>i < length b. b' ! i = b ! i \<or> b' ! i = opcode vm OP_RestReuse
            \<or> (lastOp s = OP_Call \<and> i = sec_end s - 1 - 4 - 2)"
    and "opcode vm OP_TailCall \<noteq> opcode vm OP_Rest \<Longrightarrow>
         (lastOp s = OP_Call \<longrightarrow> b' ! (sec_end s - 1 - 4 - 2) = opcode vm OP_TailCall)
         \<and> (\<forall>q < length b. b ! q = opcode vm OP_TailCall \<longrightarrow> b' ! q = opcode vm OP_TailCall)"
proof -
  let ?q = "sec_end s - 1 - 4 - 2"
  let ?b1 = "if lastOp s = OP_Call then b[?q := opcode vm OP_TailCall] else b"
  from assms have rng: "lastOp s = OP_Call \<longrightarrow> ?q < length b"
    and rr: "rest_reuse vm (typeArgumentUsages s) ?b1 = Some b'"
    by (auto simp: rewrite_tail_def bind_eq_Some_conv split: if_splits)
  from rest_reuse_effect [OF rr]
  have l: "length b' = length b"
    and e: "\<forall>i < length b. b' ! i = ?b1 ! i \<or> (?b1 ! i = opcode vm OP_Rest \<and> b' ! i = opcode vm OP_RestReuse)"
    by simp_all
  show "length b' = length b" by (rule l)
  show "\<forall>i < length b. b' ! i = b ! i \<or> b' ! i = opcode vm OP_RestReuse
            \<or> (lastOp s = OP_Call \<and> i = ?q)"
  proof (intro allI impI)
    fix i assume i: "i < length b"
    from e i have "b' ! i = ?b1 ! i \<or> b' ! i = opcode vm OP_RestReuse" by blast
    moreover have "?b1 ! i = b ! i \<or> (lastOp s = OP_Call \<and> i = ?q)"
      by (cases "i = ?q") simp_all
    ultimately show "b' ! i = b ! i \<or> b' ! i = opcode vm OP_RestReuse
            \<or> (lastOp s = OP_Call \<and> i = ?q)"
      by metis
  qed
  show "(lastOp s = OP_Call \<longrightarrow> b' ! ?q = opcode vm OP_TailCall)
         \<and> (\<forall>q < length b. b ! q = opcode vm OP_TailCall \<longrightarrow> b' ! q = opcode vm OP_TailCall)"
    if d: "opcode vm OP_TailCall \<noteq> opcode vm OP_Rest"
  proof (intro conjI impI allI)
    assume c: "lastOp s = OP_Call"
    with rng have q: "?q < length b" by simp
    with c have "?b1 ! ?q = opcode vm OP_TailCall" by simp
    with e q d show "b' ! ?q = opcode vm OP_TailCall" by metis
  next
    fix q assume q: "q < length b" and t: "b ! q = opcode vm OP_TailCall"
    then have "?b1 ! q = opcode vm OP_TailCall" by (cases "q = ?q") simp_all
    with e q d show "b' ! q = opcode vm OP_TailCall" by metis
  qed
qed

lemma optimise_loop_effect:
  assumes "optimise_loop vm secs todo b = Some b'"
  shows "length b' = length b
    \<and> (\<forall>s \<in> set todo. \<exists>t. tail_section secs s = Some t)
    \<and> (\<forall>i < length b. b' ! i = b ! i \<or> b' ! i = opcode vm OP_RestReuse
          \<or> (\<exists>s \<in> set todo. tail_section secs s = Some True \<and> lastOp s = OP_Call
                \<and> i = sec_end s - 1 - 4 - 2))
    \<and> (opcode vm OP_TailCall \<noteq> opcode vm OP_Rest \<longrightarrow>
         (\<forall>s \<in> set todo. tail_section secs s = Some True \<and> lastOp s = OP_Call
              \<longrightarrow> b' ! (sec_end s - 1 - 4 - 2) = opcode vm OP_TailCall)
         \<and> (\<forall>q < length b. b ! q = opcode vm OP_TailCall \<longrightarrow> b' ! q = opcode vm OP_TailCall))"
  using assms
proof (induction todo arbitrary: b)
  case Nil
  then show ?case by simp
next
  case (Cons s todo)
  from Cons.prems obtain t b1 where t: "tail_section secs s = Some t"
    and b1: "(if t then rewrite_tail vm s b else Some b) = Some b1"
    and rec: "optimise_loop vm secs todo b1 = Some b'"
    by (auto simp: bind_eq_Some_conv)
  have l1: "length b1 = length b"
    using b1 rewrite_tail_effect(1) by (auto split: if_splits)
  have e1: "\<forall>i < length b. b1 ! i = b ! i \<or> b1 ! i = opcode vm OP_RestReuse
            \<or> (t \<and> lastOp s = OP_Call \<and> i = sec_end s - 1 - 4 - 2)"
    using b1 rewrite_tail_effect(2) [of vm s b b1] by (cases t) auto
  have k1: "opcode vm OP_TailCall \<noteq> opcode vm OP_Rest \<Longrightarrow>
         (t \<and> lastOp s = OP_Call \<longrightarrow> b1 ! (sec_end s - 1 - 4 - 2) = opcode vm OP_TailCall)
         \<and> (\<forall>q < length b. b ! q = opcode vm OP_TailCall \<longrightarrow> b1 ! q = opcode vm OP_TailCall)"
    using b1 rewrite_tail_effect(3) [of vm s b b1] by (cases t) auto
  have q1: "t \<and> lastOp s = OP_Call \<longrightarrow> sec_end s - 1 - 4 - 2 < length b"
    using b1 by (auto simp: rewrite_tail_def bind_eq_Some_conv split: if_splits)
  note IH = Cons.IH [OF rec]
  from IH l1 have l: "length b' = length b" by simp
  have dom: "\<forall>x \<in> set (s # todo). \<exists>t. tail_section secs x = Some t"
    using IH t by simp
  have eff: "\<forall>i < length b. b' ! i = b ! i \<or> b' ! i = opcode vm OP_RestReuse
          \<or> (\<exists>x \<in> set (s # todo). tail_section secs x = Some True \<and> lastOp x = OP_Call
                \<and> i = sec_end x - 1 - 4 - 2)"
  proof (intro allI impI)
    fix i assume i: "i < length b"
    with IH l1 have a: "b' ! i = b1 ! i \<or> b' ! i = opcode vm OP_RestReuse
          \<or> (\<exists>x \<in> set todo. tail_section secs x = Some True \<and> lastOp x = OP_Call
                \<and> i = sec_end x - 1 - 4 - 2)"
      by simp
    from e1 i have c: "b1 ! i = b ! i \<or> b1 ! i = opcode vm OP_RestReuse
            \<or> (t \<and> lastOp s = OP_Call \<and> i = sec_end s - 1 - 4 - 2)"
      by simp
    show "b' ! i = b ! i \<or> b' ! i = opcode vm OP_RestReuse
          \<or> (\<exists>x \<in> set (s # todo). tail_section secs x = Some True \<and> lastOp x = OP_Call
                \<and> i = sec_end x - 1 - 4 - 2)"
      using a c t by auto
  qed
  have keep: "(\<forall>x \<in> set (s # todo). tail_section secs x = Some True \<and> lastOp x = OP_Call
              \<longrightarrow> b' ! (sec_end x - 1 - 4 - 2) = opcode vm OP_TailCall)
         \<and> (\<forall>q < length b. b ! q = opcode vm OP_TailCall \<longrightarrow> b' ! q = opcode vm OP_TailCall)"
    if d: "opcode vm OP_TailCall \<noteq> opcode vm OP_Rest"
  proof -
    from IH d l1 have i1: "\<forall>x \<in> set todo. tail_section secs x = Some True \<and> lastOp x = OP_Call
              \<longrightarrow> b' ! (sec_end x - 1 - 4 - 2) = opcode vm OP_TailCall"
      and i2: "\<forall>q < length b. b1 ! q = opcode vm OP_TailCall \<longrightarrow> b' ! q = opcode vm OP_TailCall"
      by simp_all
    from k1 [OF d] have j1: "t \<and> lastOp s = OP_Call \<longrightarrow> b1 ! (sec_end s - 1 - 4 - 2) = opcode vm OP_TailCall"
      and j2: "\<forall>q < length b. b ! q = opcode vm OP_TailCall \<longrightarrow> b1 ! q = opcode vm OP_TailCall"
      by simp_all
    have "b' ! (sec_end s - 1 - 4 - 2) = opcode vm OP_TailCall"
      if "tail_section secs s = Some True" "lastOp s = OP_Call"
      using that t j1 q1 i2 by auto
    with i1 i2 j2 show ?thesis by auto
  qed
  show ?case using l dom eff keep by blast
qed

text \<open>
  What \<^verbatim>\<open>optimise\<close> leaves when it returns: the sections and the length of the code as
  they were, the trailing call of every tail section rewritten, and no other byte turned
  into \<^verbatim>\<open>TailCall\<close>.
\<close>

lemma optimise_effect:
  assumes "optimise vm s = Some s'"
    and "opcode vm OP_TailCall \<noteq> opcode vm OP_Rest"
    and "opcode vm OP_RestReuse \<noteq> opcode vm OP_TailCall"
  shows "sections s' = sections s \<and> length (sub_ops s') = length (sub_ops s)
       \<and> (\<forall>section \<in> set (sections s).
            tail_spec (sections s) section \<and> lastOp section = OP_Call \<longrightarrow>
              sub_ops s' ! (sec_end section - 1 - 4 - 2) = opcode vm OP_TailCall)
       \<and> (\<forall>i < length (sub_ops s).
            sub_ops s' ! i = opcode vm OP_TailCall \<and> sub_ops s ! i \<noteq> opcode vm OP_TailCall \<longrightarrow>
              (\<exists>section \<in> set (sections s).
                 tail_spec (sections s) section \<and> lastOp section = OP_Call
                 \<and> i = sec_end section - 1 - 4 - 2))"
proof -
  from assms(1) obtain b' where loop: "optimise_loop vm (sections s) (sections s) (sub_ops s) = Some b'"
    and s': "sub_ops s' = b'" and secs: "sections s' = sections s"
    by (auto simp: optimise_def)
  note eff = optimise_loop_effect [OF loop]
  have len: "length (sub_ops s') = length (sub_ops s)"
    using eff s' by simp
  have dom: "tail_section (sections s) x = Some (tail_spec (sections s) x)"
    if "x \<in> set (sections s)" for x
  proof -
    from eff that obtain t where t: "tail_section (sections s) x = Some t" by blast
    from tail_section_sound [OF t] t show ?thesis by simp
  qed
  have one: "sub_ops s' ! (sec_end x - 1 - 4 - 2) = opcode vm OP_TailCall"
    if "x \<in> set (sections s)" "tail_spec (sections s) x" "lastOp x = OP_Call" for x
  proof -
    from dom [OF that(1)] that(2) have "tail_section (sections s) x = Some True" by simp
    with eff assms(2) that(1,3) s' show ?thesis by blast
  qed
  have two: "\<exists>x \<in> set (sections s). tail_spec (sections s) x \<and> lastOp x = OP_Call
                 \<and> i = sec_end x - 1 - 4 - 2"
    if "i < length (sub_ops s)" "sub_ops s' ! i = opcode vm OP_TailCall"
       "sub_ops s ! i \<noteq> opcode vm OP_TailCall" for i
  proof -
    from eff that(1) have "b' ! i = sub_ops s ! i \<or> b' ! i = opcode vm OP_RestReuse
          \<or> (\<exists>x \<in> set (sections s). tail_section (sections s) x = Some True \<and> lastOp x = OP_Call
                \<and> i = sec_end x - 1 - 4 - 2)"
      by blast
    with that(2,3) s' assms(3) obtain x where x: "x \<in> set (sections s)"
      "tail_section (sections s) x = Some True" "lastOp x = OP_Call" "i = sec_end x - 1 - 4 - 2"
      by auto
    from dom [OF x(1)] x(2) have "tail_spec (sections s) x" by simp
    with x show ?thesis by blast
  qed
  show ?thesis using secs len one two by blast
qed

text \<open>
  \<^verbatim>\<open>optimise\<close> returns. On linked sections the recursion of \<^verbatim>\<open>ended\<close> goes forward in the
  vector and the walk over the ancestors backward, so both end inside it.
\<close>

lemma linkedD:
  assumes "linked secs" and "i < length secs"
  shows "0 \<le> sec_next (secs ! i) \<Longrightarrow> i < nat (sec_next (secs ! i))"
    and "0 \<le> sec_next (secs ! i) \<Longrightarrow> nat (sec_next (secs ! i)) < length secs"
    and "0 \<le> sec_up (secs ! i) \<Longrightarrow> nat (sec_up (secs ! i)) < i"
  using assms by (auto simp: linked_def)

lemma ended_total:
  assumes "linked secs" and "i < length secs"
  shows "\<exists>b. ended secs (secs ! i) = Some b"
  using assms(2)
proof (induction "length secs - i" arbitrary: i rule: less_induct)
  case less
  show ?case
  proof (cases "0 \<le> sec_next (secs ! i)")
    case True
    let ?j = "nat (sec_next (secs ! i))"
    from linkedD(1,2) [OF assms(1) less.prems True] have j: "i < ?j" "?j < length secs" .
    then have "length secs - ?j < length secs - i" by simp
    from less.hyps [OF this j(2)] obtain b where "ended secs (secs ! ?j) = Some b" by blast
    with True j show ?thesis by (subst ended.simps) simp
  next
    case False
    then show ?thesis by (subst ended.simps) simp
  qed
qed

lemma tail_ancestors_total:
  assumes "linked secs" and "i < length secs"
  shows "\<exists>b. tail_ancestors secs (secs ! i) = Some b"
  using assms(2)
proof (induction i rule: less_induct)
  case (less i)
  from ended_total [OF assms(1) less.prems] obtain e where e: "ended secs (secs ! i) = Some e"
    by blast
  show ?case
  proof (cases "0 \<le> sec_up (secs ! i)")
    case True
    let ?j = "nat (sec_up (secs ! i))"
    from linkedD(3) [OF assms(1) less.prems True] have j: "?j < i" .
    with less.prems have jl: "?j < length secs" by simp
    from less.IH [OF j jl] obtain b where "tail_ancestors secs (secs ! ?j) = Some b" by blast
    with True jl e show ?thesis by (subst tail_ancestors.simps) auto
  next
    case False
    with e show ?thesis by (subst tail_ancestors.simps) auto
  qed
qed

lemma tail_section_total:
  assumes "linked secs" and "x \<in> set secs"
  shows "tail_section secs x = Some (tail_spec secs x)"
proof -
  from assms(2) obtain i where i: "i < length secs" and x: "x = secs ! i"
    by (auto simp: in_set_conv_nth)
  from ended_total [OF assms(1) i] obtain e where e: "ended secs x = Some e"
    unfolding x by blast
  have "\<exists>t. tail_section secs x = Some t"
  proof (cases "0 \<le> sec_up x")
    case True
    let ?j = "nat (sec_up x)"
    from linkedD(3) [OF assms(1) i] True have "?j < i" by (simp add: x)
    with i have jl: "?j < length secs" by simp
    from tail_ancestors_total [OF assms(1) jl] obtain b
      where "tail_ancestors secs (secs ! ?j) = Some b" by blast
    with True jl e show ?thesis by (auto simp: tail_section_def)
  next
    case False
    with e show ?thesis by (auto simp: tail_section_def)
  qed
  then obtain t where t: "tail_section secs x = Some t" by blast
  from tail_section_sound [OF t] t show ?thesis by simp
qed

lemma rest_reuse_total:
  "\<forall>u \<in> set us. ip u < length b \<Longrightarrow> \<exists>b'. rest_reuse vm us b = Some b'"
  by (induction us arbitrary: b) simp_all

lemma rewrite_tail_total:
  assumes "lastOp x = OP_Call \<longrightarrow> 7 \<le> sec_end x \<and> sec_end x - 1 - 4 - 2 < length b"
    and "\<forall>u \<in> set (typeArgumentUsages x). ip u < length b"
  shows "\<exists>b'. rewrite_tail vm x b = Some b'"
proof -
  let ?b1 = "if lastOp x = OP_Call then b[sec_end x - 1 - 4 - 2 := opcode vm OP_TailCall] else b"
  have "\<forall>u \<in> set (typeArgumentUsages x). ip u < length ?b1"
    using assms(2) by simp
  from rest_reuse_total [OF this] obtain b' where "rest_reuse vm (typeArgumentUsages x) ?b1 = Some b'"
    by blast
  then show ?thesis
    using assms(1) by (auto simp: rewrite_tail_def)
qed

lemma optimise_loop_total:
  assumes links: "linked secs"
    and sub: "set todo \<subseteq> set secs"
    and calls: "\<forall>x \<in> set todo. tail_spec secs x \<and> lastOp x = OP_Call \<longrightarrow>
                  7 \<le> sec_end x \<and> sec_end x - 1 - 4 - 2 < length b"
    and usages: "\<forall>x \<in> set todo. tail_spec secs x \<longrightarrow>
                  (\<forall>u \<in> set (typeArgumentUsages x). ip u < length b)"
  shows "\<exists>b'. optimise_loop vm secs todo b = Some b'"
  using sub calls usages
proof (induction todo arbitrary: b)
  case Nil
  show ?case by simp
next
  case (Cons x todo)
  from Cons.prems(1) have x: "x \<in> set secs" by simp
  note t = tail_section_total [OF links x]
  have "\<exists>b1. (if tail_spec secs x then rewrite_tail vm x b else Some b) = Some b1
             \<and> length b1 = length b"
  proof (cases "tail_spec secs x")
    case True
    have "\<exists>b1. rewrite_tail vm x b = Some b1"
      using Cons.prems(2,3) True by (intro rewrite_tail_total) simp_all
    then obtain b1 where b1: "rewrite_tail vm x b = Some b1" by blast
    from rewrite_tail_effect(1) [OF b1] b1 True show ?thesis by simp
  next
    case False
    then show ?thesis by simp
  qed
  then obtain b1 where b1: "(if tail_spec secs x then rewrite_tail vm x b else Some b) = Some b1"
    and l: "length b1 = length b"
    by blast
  have "\<exists>b'. optimise_loop vm secs todo b1 = Some b'"
    using Cons.prems by (intro Cons.IH) (simp_all add: l)
  with t b1 show ?case by simp
qed

text \<open>
  C2. \<^verbatim>\<open>optimise\<close> returns, and after it: for every section that meets the four tail
  criteria of the spec and whose last op is \<^verbatim>\<open>Call\<close>, the byte at \<^verbatim>\<open>section.end - 1 - 4 - 2\<close>
  is \<^verbatim>\<open>TailCall\<close>; and every byte that became \<^verbatim>\<open>TailCall\<close> is at that offset of such a
  section, so no other section has a call rewritten. The hypotheses are on the subroutine
  that \<^verbatim>\<open>optimise\<close> is given: its sections are linked (which holds of every subroutine the
  compiler builds, \<open>wf_program\<close>), the bytes that the source indexes for a tail section are
  inside the code (the call seven bytes before its end, the recorded usages), and the
  opcodes \<^verbatim>\<open>TailCall\<close>, \<^verbatim>\<open>Rest\<close> and \<^verbatim>\<open>RestReuse\<close> have distinct bytes.
\<close>

theorem optimise_rewrites_tail_calls:
  assumes "linked (sections s)"
    and "\<forall>section \<in> set (sections s). tail_spec (sections s) section \<and> lastOp section = OP_Call
           \<longrightarrow> 7 \<le> sec_end section \<and> sec_end section - 1 - 4 - 2 < length (sub_ops s)"
    and "\<forall>section \<in> set (sections s). tail_spec (sections s) section
           \<longrightarrow> (\<forall>u \<in> set (typeArgumentUsages section). ip u < length (sub_ops s))"
    and "opcode vm OP_TailCall \<noteq> opcode vm OP_Rest"
    and "opcode vm OP_RestReuse \<noteq> opcode vm OP_TailCall"
  shows "\<exists>s'. optimise vm s = Some s'
       \<and> sections s' = sections s \<and> length (sub_ops s') = length (sub_ops s)
       \<and> (\<forall>section \<in> set (sections s).
            tail_spec (sections s) section \<and> lastOp section = OP_Call \<longrightarrow>
              sub_ops s' ! (sec_end section - 1 - 4 - 2) = opcode vm OP_TailCall)
       \<and> (\<forall>i < length (sub_ops s).
            sub_ops s' ! i = opcode vm OP_TailCall \<and> sub_ops s ! i \<noteq> opcode vm OP_TailCall \<longrightarrow>
              (\<exists>section \<in> set (sections s).
                 tail_spec (sections s) section \<and> lastOp section = OP_Call
                 \<and> i = sec_end section - 1 - 4 - 2))"
proof -
  have "\<exists>b'. optimise_loop vm (sections s) (sections s) (sub_ops s) = Some b'"
    using assms(1) _ assms(2,3) by (rule optimise_loop_total) simp
  then obtain s' where s': "optimise vm s = Some s'"
    by (auto simp: optimise_def)
  from optimise_effect [OF s' assms(4,5)] s' show ?thesis by blast
qed

text \<open>
  In \<open>subroutine_with_branches\<close> the sections of the two branches are tail sections that
  end in a call: the calls at 14 and at 26 become \<^verbatim>\<open>TailCall\<close>.
\<close>

theorem optimise_rewrites_tail_calls_witness:
  "linked (sections subroutine_with_branches)
   \<and> length (sections subroutine_with_branches) = 7
   \<and> map (tail_spec (sections subroutine_with_branches)) (sections subroutine_with_branches)
       = [False, False, True, False, True, True, True]
   \<and> map (\<lambda>x. (lastOp x = OP_Call, sec_end x)) (sections subroutine_with_branches)
       = [(False, 0), (False, 0), (True, 21), (False, 0), (True, 33), (False, 34), (False, 34)]
   \<and> sub_ops subroutine_with_branches ! 14 = opcode sample_contract OP_Call
   \<and> sub_ops subroutine_with_branches ! 26 = opcode sample_contract OP_Call
   \<and> (\<exists>s'. optimise sample_contract subroutine_with_branches = Some s'
          \<and> sub_ops s' ! 14 = opcode sample_contract OP_TailCall
          \<and> sub_ops s' ! 26 = opcode sample_contract OP_TailCall)"
proof -
  let ?s = "subroutine_with_branches"
  have l: "linked (sections ?s)"
    by code_simp
  have n: "length (sections ?s) = 7"
    by code_simp
  have ts: "map (tail_section (sections ?s)) (sections ?s)
            = map Some [False, False, True, False, True, True, True]"
    by code_simp
  have "map (tail_section (sections ?s)) (sections ?s)
          = map (\<lambda>x. Some (tail_spec (sections ?s) x)) (sections ?s)"
    by (rule map_cong [OF refl]) (rule tail_section_total [OF l])
  with ts have "map (Some \<circ> tail_spec (sections ?s)) (sections ?s)
          = map Some [False, False, True, False, True, True, True]"
    by (simp add: comp_def)
  then have tails: "map (tail_spec (sections ?s)) (sections ?s)
          = [False, False, True, False, True, True, True]"
    by (simp only: map_map [symmetric] inj_map_eq_map [OF inj_Some])
  have ends: "map (\<lambda>x. (lastOp x = OP_Call, sec_end x)) (sections ?s)
       = [(False, 0), (False, 0), (True, 21), (False, 0), (True, 33), (False, 34), (False, 34)]"
    by code_simp
  have c14: "sub_ops ?s ! 14 = opcode sample_contract OP_Call"
    by code_simp
  have c26: "sub_ops ?s ! 26 = opcode sample_contract OP_Call"
    by code_simp
  have h2: "\<forall>section \<in> set (sections ?s). tail_spec (sections ?s) section \<and> lastOp section = OP_Call
           \<longrightarrow> 7 \<le> sec_end section \<and> sec_end section - 1 - 4 - 2 < length (sub_ops ?s)"
  proof -
    have "\<forall>section \<in> set (sections ?s). lastOp section = OP_Call
           \<longrightarrow> 7 \<le> sec_end section \<and> sec_end section - 1 - 4 - 2 < length (sub_ops ?s)"
      by code_simp
    then show ?thesis by blast
  qed
  have h3: "\<forall>section \<in> set (sections ?s). tail_spec (sections ?s) section
           \<longrightarrow> (\<forall>u \<in> set (typeArgumentUsages section). ip u < length (sub_ops ?s))"
  proof -
    have "\<forall>section \<in> set (sections ?s).
            \<forall>u \<in> set (typeArgumentUsages section). ip u < length (sub_ops ?s)"
      by code_simp
    then show ?thesis by blast
  qed
  have h4: "opcode sample_contract OP_TailCall \<noteq> opcode sample_contract OP_Rest"
    by code_simp
  have h5: "opcode sample_contract OP_RestReuse \<noteq> opcode sample_contract OP_TailCall"
    by code_simp
  from optimise_rewrites_tail_calls [OF l h2 h3 h4 h5]
  obtain s' where s': "optimise sample_contract ?s = Some s'"
    and rw: "\<forall>section \<in> set (sections ?s).
            tail_spec (sections ?s) section \<and> lastOp section = OP_Call \<longrightarrow>
              sub_ops s' ! (sec_end section - 1 - 4 - 2) = opcode sample_contract OP_TailCall"
    by blast
  have m2: "sections ?s ! 2 \<in> set (sections ?s)" and m4: "sections ?s ! 4 \<in> set (sections ?s)"
    using n by simp_all
  have t2: "tail_spec (sections ?s) (sections ?s ! 2)"
    and t4: "tail_spec (sections ?s) (sections ?s ! 4)"
    using arg_cong [OF tails, of "\<lambda>xs. xs ! 2"] arg_cong [OF tails, of "\<lambda>xs. xs ! 4"] n
    by simp_all
  have e2: "lastOp (sections ?s ! 2) = OP_Call" "sec_end (sections ?s ! 2) = 21"
    and e4: "lastOp (sections ?s ! 4) = OP_Call" "sec_end (sections ?s ! 4) = 33"
    using arg_cong [OF ends, of "\<lambda>xs. xs ! 2"] arg_cong [OF ends, of "\<lambda>xs. xs ! 4"] n
    by simp_all
  from rw m2 t2 e2(1)
  have "sub_ops s' ! (sec_end (sections ?s ! 2) - 1 - 4 - 2) = opcode sample_contract OP_TailCall"
    by blast
  then have r14: "sub_ops s' ! 14 = opcode sample_contract OP_TailCall"
    unfolding e2(2) by simp
  from rw m4 t4 e4(1)
  have "sub_ops s' ! (sec_end (sections ?s ! 4) - 1 - 4 - 2) = opcode sample_contract OP_TailCall"
    by blast
  then have r26: "sub_ops s' ! 26 = opcode sample_contract OP_TailCall"
    unfolding e4(2) by simp
  from l n tails ends c14 c26 s' r14 r26 show ?thesis by blast
qed

text \<open>
  What the member without initialiser decides: with the flag of a new section reading as
  clear, the calls of the two branches are rewritten; with it reading as set, both stay
  \<^verbatim>\<open>Call\<close>.
\<close>

lemma branch_calls_by_flag:
  "map_option (\<lambda>c. (c ! 2 ! 14, c ! 2 ! 26)) (compiled_ops sample_contract source_branch_calls)
     = Some (opcode sample_contract OP_TailCall, opcode sample_contract OP_TailCall)
   \<and> map_option (\<lambda>c. (c ! 2 ! 14, c ! 2 ! 26))
        (compiled_ops sample_contract_flag_set source_branch_calls)
     = Some (opcode sample_contract OP_Call, opcode sample_contract OP_Call)"
  by code_simp

text \<open>
  The hypothesis on the usages is not met by every subroutine the compiler builds. In
  \<^verbatim>\<open>type Id<T> = T;\<close> the usage of \<open>T\<close> is recorded at the ip after \<^verbatim>\<open>Loads\<close> and its
  address, which is the end of the code when \<^verbatim>\<open>optimise\<close> runs: when the one section is a
  tail section the source reads \<^verbatim>\<open>ops[usage.ip]\<close> outside the vector. With the flag
  reading as set the section is no tail section and the read does not happen.
\<close>

lemma identity_generic_reads_past_end:
  "compileSourceFile sample_contract source_identity_generic = Inl UndefinedBehaviour
   \<and> compiled_ops sample_contract_flag_set source_identity_generic
     = Some [opcode sample_contract OP_TypeArgument # opcode sample_contract OP_Loads
             # u16_bytes 0 @ u16_bytes 0 @ [opcode sample_contract OP_Return]]"
  by code_simp

subsection \<open>The alias of a union\<close>

text \<open>
  C3, as the spec states it, fails: the subroutine of \<open>T\<close> is not
  \<^verbatim>\<open>Frame, String, Number, Union, FrameEnd, Return\<close>.
\<close>

theorem alias_union_counterexample:
  "compiled_ops sample_contract source_alias_union
     \<noteq> Some [map (opcode sample_contract)
                 [OP_Frame, OP_String, OP_Number, OP_Union, OP_FrameEnd, OP_Return]]"
  by code_simp

text \<open>
  C3, amended. Compiling \<^verbatim>\<open>type T = string | number;\<close> leaves exactly one subroutine,
  named \<open>T\<close>, whose code is \<^verbatim>\<open>Frame, String, Number, Union, Return\<close>: the union is lowered
  with \<^verbatim>\<open>popFrameImplicit\<close>, which emits no \<^verbatim>\<open>FrameEnd\<close>.
\<close>

theorem alias_union_ops:
  "compiled_names vm source_alias_union = Some [''T'']
   \<and> compiled_ops vm source_alias_union
       = Some [map (opcode vm) [OP_Frame, OP_String, OP_Number, OP_Union, OP_Return]]"
  by code_simp


subsection \<open>Names that are not found\<close>

lemma sub_pushOp_effect:
  assumes "isIgnoreNextSectionOP s \<or> activeSection s < length (sections s)"
  shows "\<exists>s'. sub_pushOp vm op s = Inr s' \<and> sub_ops s' = sub_ops s @ [opcode vm op]
            \<and> sub_sourceMap s' = sub_sourceMap s"
proof (cases "isIgnoreNextSectionOP s")
  case True
  then show ?thesis by (simp add: sub_pushOp_def Let_def)
next
  case False
  with assms have "activeSection s < length (sections s)" by simp
  with False show ?thesis by (simp add: sub_pushOp_def onActiveSection_def Let_def)
qed

lemma pushOpNode_effect:
  assumes "activeSubroutines p \<noteq> [] \<longrightarrow>
             last (activeSubroutines p) < length (subroutines p) \<and>
             (isIgnoreNextSectionOP (activeSubroutine p) \<or>
              activeSection (activeSubroutine p) < length (sections (activeSubroutine p)))"
  shows "\<exists>p'. pushOpNode vm op (Some sp) p = Inr p'
      \<and> activeSubroutines p' = activeSubroutines p
      \<and> (if activeSubroutines p = []
          then ops p' = ops p @ [opcode vm op]
             \<and> sourceMap p' = sourceMap p @
                 [\<lparr>bytecodePos = length (ops p), sourcePos = fst sp, sourceEnd = snd sp\<rparr>]
          else ops p' = ops p \<and> sourceMap p' = sourceMap p
             \<and> sub_ops (activeSubroutine p') = sub_ops (activeSubroutine p) @ [opcode vm op]
             \<and> sub_sourceMap (activeSubroutine p') = sub_sourceMap (activeSubroutine p) @
                 [\<lparr>bytecodePos = length (sub_ops (activeSubroutine p)), sourcePos = fst sp,
                   sourceEnd = snd sp\<rparr>])"
proof (cases "activeSubroutines p = []")
  case True
  then show ?thesis
    by (simp add: pushOpNode_def pushOp_def pushSourceMap_def)
next
  case False
  let ?i = "last (activeSubroutines p)"
  let ?s = "activeSubroutine p"
  let ?s1 = "sub_pushSourceMap (fst sp) (snd sp) ?s"
  let ?p1 = "pushSourceMap sp p"
  from False assms have i: "?i < length (subroutines p)"
    and s: "isIgnoreNextSectionOP ?s \<or> activeSection ?s < length (sections ?s)"
    by auto
  have p1: "?p1 = p\<lparr>subroutines := (subroutines p)[?i := ?s1]\<rparr>"
    using False by (simp add: pushSourceMap_def)
  have a1: "activeSubroutine ?p1 = ?s1"
    using i by (simp add: p1 activeSubroutine_def)
  have "isIgnoreNextSectionOP ?s1 \<or> activeSection ?s1 < length (sections ?s1)"
    using s by (simp add: sub_pushSourceMap_def)
  from sub_pushOp_effect [OF this, of vm op]
  obtain s' where s': "sub_pushOp vm op ?s1 = Inr s'"
    and o: "sub_ops s' = sub_ops ?s1 @ [opcode vm op]"
    and m: "sub_sourceMap s' = sub_sourceMap ?s1"
    by blast
  have r: "pushOpNode vm op (Some sp) p = Inr (?p1\<lparr>subroutines := (subroutines ?p1)[?i := s']\<rparr>)"
    using False s' a1 by (simp add: pushOpNode_def pushOp_def onActive_def p1)
  show ?thesis
    using False i o m
    by (simp add: r p1 activeSubroutine_def sub_pushSourceMap_def)
qed

text \<open>
  C4, as the spec states it, fails when a subroutine is active: compiling
  \<^verbatim>\<open>type A = X;\<close> leaves \<^verbatim>\<open>Never\<close> in the subroutine of \<open>A\<close>, followed by \<^verbatim>\<open>Return\<close>, and
  \<^verbatim>\<open>Error\<close> with its code in the main code.
\<close>

theorem cannotFind_counterexample:
  "compiled_ops sample_contract source_unknown_reference
     = Some [map (opcode sample_contract) [OP_Never, OP_Return]]
   \<and> compiled_main sample_contract source_unknown_reference
     = Some (opcode sample_contract OP_Error
             # u16_bytes (ucast (errorCode sample_contract CannotFind)))"
  by code_simp

text \<open>
  C4, amended. For an identifier or a type reference whose name \<^verbatim>\<open>findSymbol\<close> does not
  find, lowering succeeds; \<^verbatim>\<open>Never\<close> goes to the current code (the active subroutine, or
  the main code when none is active) with a source-map entry at its position, and
  \<^verbatim>\<open>Error\<close> with the code \<^verbatim>\<open>CannotFind\<close> always goes to the main code, with one more
  entry of the main source map; both entries carry the identifier's span.
\<close>

theorem cannotFind_emission:
  assumes "findSymbol name p = None"
    and "activeSubroutines p \<noteq> [] \<longrightarrow>
           last (activeSubroutines p) < length (subroutines p) \<and>
           (isIgnoreNextSectionOP (activeSubroutine p) \<or>
            activeSection (activeSubroutine p) < length (sections (activeSubroutine p)))"
  shows "\<exists>p'. handle vm (Identifier sp name typeArguments) p = Inr p'
      \<and> handle vm (TypeReference rsp (Identifier sp name typeArguments) referenceArguments) p
          = Inr p'
      \<and> activeSubroutines p' = activeSubroutines p
      \<and> ops p' = (if activeSubroutines p = [] then ops p @ [opcode vm OP_Never] else ops p)
                 @ [opcode vm OP_Error] @ u16_bytes (ucast (errorCode vm CannotFind))
      \<and> (\<exists>entry. sourceMap p' =
            (if activeSubroutines p = []
             then sourceMap p @
                  [\<lparr>bytecodePos = length (ops p), sourcePos = fst sp, sourceEnd = snd sp\<rparr>]
             else sourceMap p)
            @ [entry]
          \<and> sourcePos entry = fst sp \<and> sourceEnd entry = snd sp)
      \<and> (activeSubroutines p = [] \<or>
           sub_ops (activeSubroutine p') = sub_ops (activeSubroutine p) @ [opcode vm OP_Never]
           \<and> sub_sourceMap (activeSubroutine p') = sub_sourceMap (activeSubroutine p) @
                [\<lparr>bytecodePos = length (sub_ops (activeSubroutine p)), sourcePos = fst sp,
                  sourceEnd = snd sp\<rparr>])"
proof -
  from pushOpNode_effect [OF assms(2), of vm OP_Never sp]
  obtain p1 where p1: "pushOpNode vm OP_Never (Some sp) p = Inr p1"
    and a: "activeSubroutines p1 = activeSubroutines p"
    and e: "if activeSubroutines p = []
          then ops p1 = ops p @ [opcode vm OP_Never]
             \<and> sourceMap p1 = sourceMap p @
                 [\<lparr>bytecodePos = length (ops p), sourcePos = fst sp, sourceEnd = snd sp\<rparr>]
          else ops p1 = ops p \<and> sourceMap p1 = sourceMap p
             \<and> sub_ops (activeSubroutine p1) = sub_ops (activeSubroutine p) @ [opcode vm OP_Never]
             \<and> sub_sourceMap (activeSubroutine p1) = sub_sourceMap (activeSubroutine p) @
                 [\<lparr>bytecodePos = length (sub_ops (activeSubroutine p)), sourcePos = fst sp,
                   sourceEnd = snd sp\<rparr>]"
    by blast
  let ?p' = "pushError vm CannotFind sp p1"
  have c: "cannotFind vm sp p = Inr ?p'"
    using p1 by (simp add: cannotFind_def lift_def)
  have h1: "handle vm (Identifier sp name typeArguments) p = Inr ?p'"
    using assms(1) c by (simp add: lowerIdentifier_def)
  have h2: "handle vm (TypeReference rsp (Identifier sp name typeArguments) referenceArguments) p
          = Inr ?p'"
    using assms(1) c by (simp add: lowerTypeReference_def)
  have w: "write_at b (length b) bs = b @ bs" for b bs
    by (simp add: write_at_def)
  have pe: "activeSubroutines ?p' = activeSubroutines p1"
    "subroutines ?p' = subroutines p1"
    "ops ?p' = ops p1 @ [opcode vm OP_Error] @ u16_bytes (ucast (errorCode vm CannotFind))"
    "sourceMap ?p' = sourceMap p1 @ [\<lparr>bytecodePos = 0, sourcePos = fst sp, sourceEnd = snd sp\<rparr>]"
    by (simp_all add: pushError_def Let_def writeUint16_def write_at_def)
  have act: "activeSubroutine ?p' = activeSubroutine p1"
    using pe by (simp add: activeSubroutine_def)
  show ?thesis
  proof (cases "activeSubroutines p = []")
    case True
    with e h1 h2 pe a show ?thesis by simp
  next
    case False
    with e h1 h2 pe a act show ?thesis by simp
  qed
qed

theorem cannotFind_emission_witness:
  "findSymbol ''X'' program_in_alias = None
   \<and> (\<exists>p'. handle sample_contract (Identifier (9, 10) ''X'' None) program_in_alias = Inr p'
         \<and> ops p' = opcode sample_contract OP_Error
                     # u16_bytes (ucast (errorCode sample_contract CannotFind))
         \<and> sub_ops (activeSubroutine p') = [opcode sample_contract OP_Never])"
proof -
  have h1: "findSymbol ''X'' program_in_alias = None"
    by code_simp
  have h2: "activeSubroutines program_in_alias \<noteq> [] \<longrightarrow>
           last (activeSubroutines program_in_alias) < length (subroutines program_in_alias) \<and>
           (isIgnoreNextSectionOP (activeSubroutine program_in_alias) \<or>
            activeSection (activeSubroutine program_in_alias)
              < length (sections (activeSubroutine program_in_alias)))"
    by code_simp
  have a: "activeSubroutines program_in_alias \<noteq> []"
    by code_simp
  have b1: "ops program_in_alias = []"
    by code_simp
  have b2: "sub_ops (activeSubroutine program_in_alias) = []"
    by code_simp
  from cannotFind_emission [OF h1 h2, of sample_contract "(9, 10)" None "(9, 10)" None]
  obtain p' where r: "handle sample_contract (Identifier (9, 10) ''X'' None) program_in_alias = Inr p'"
    and o: "ops p' = (if activeSubroutines program_in_alias = []
                   then ops program_in_alias @ [opcode sample_contract OP_Never]
                   else ops program_in_alias)
                 @ [opcode sample_contract OP_Error]
                 @ u16_bytes (ucast (errorCode sample_contract CannotFind))"
    and s: "activeSubroutines program_in_alias = [] \<or>
           sub_ops (activeSubroutine p')
             = sub_ops (activeSubroutine program_in_alias) @ [opcode sample_contract OP_Never]
           \<and> sub_sourceMap (activeSubroutine p') = sub_sourceMap (activeSubroutine program_in_alias) @
                [\<lparr>bytecodePos = length (sub_ops (activeSubroutine program_in_alias)),
                  sourcePos = fst (9 :: nat, 10 :: nat), sourceEnd = snd (9 :: nat, 10 :: nat)\<rparr>]"
    by (elim exE conjE)
  from o a b1 have o': "ops p' = opcode sample_contract OP_Error
                     # u16_bytes (ucast (errorCode sample_contract CannotFind))"
    by simp
  from s a b2 have s': "sub_ops (activeSubroutine p') = [opcode sample_contract OP_Never]"
    by simp
  from h1 r o' s' show ?thesis by blast
qed

subsection \<open>Identifiers that name a type argument\<close>

text \<open>
  C5. In \<^verbatim>\<open>function f<T>(x = T) {}\<close> the bare identifier \<open>T\<close> resolves to the type argument;
  the subroutine gets \<^verbatim>\<open>Loads\<close> and the symbol address, and no section of any subroutine
  records a usage. The same symbol named through a type reference,
  \<^verbatim>\<open>function f<T>(x: T) {}\<close>, is recorded (symbol 0, ip 6).
\<close>

theorem identifier_usage_not_recorded:
  "compiled_usages sample_contract source_identifier_usage = Some [[[]], [[]]]
   \<and> compiled_usages sample_contract source_reference_usage
       = Some [[[]], [[\<lparr>symbolIndex = 0, ip = 6\<rparr>]]]
   \<and> compiled_ops sample_contract source_identifier_usage
       = Some [opcode sample_contract OP_FunctionRef # u32_bytes 1
                 @ [opcode sample_contract OP_Return],
               [opcode sample_contract OP_TypeArgument, opcode sample_contract OP_Unknown,
                opcode sample_contract OP_Parameter] @ u32_bytes 16
               @ [opcode sample_contract OP_Loads] @ u16_bytes 0 @ u16_bytes 0
               @ map (opcode sample_contract)
                   [OP_Initializer, OP_Unknown, OP_Function, OP_Return]]"
  by code_simp

subsection \<open>The head of the image\<close>

lemma length_u16_bytes [simp]: "length (u16_bytes w) = 2"
  by (simp add: u16_bytes_def)

lemma length_u32_bytes [simp]: "length (u32_bytes w) = 4"
  by (simp add: u32_bytes_def)

lemma length_u64_bytes [simp]: "length (u64_bytes w) = 8"
  by (simp add: u64_bytes_def)

lemma write_at_end: "write_at b (length b) bs = b @ bs"
  by (simp add: write_at_def)

lemma write_at_inside:
  "offset + length bs \<le> length b \<Longrightarrow>
   write_at b offset bs = take offset b @ bs @ drop (offset + length bs) b"
  by (simp add: write_at_def)

lemma put_storage_append: "put_storage vm item bin = bin @ storage_entry vm item"
  by (simp add: put_storage_def storage_entry_def Let_def writeUint64_def writeUint16_def
      write_at_end)

lemma fold_put_storage: "fold (put_storage vm) items bin = bin @ storage_block vm items"
  by (induction items arbitrary: bin) (simp_all add: storage_block_def put_storage_append)

lemma length_storage_entry: "length (storage_entry vm item) = 8 + 2 + length item"
  by (simp add: storage_entry_def)

lemma fold_storage_end:
  "fold (\<lambda>item address. address + 8 + 2 + of_nat (length item)) items (a :: 32 word)
   = a + of_nat (length (storage_block vm items))"
proof (induction items arbitrary: a)
  case Nil
  then show ?case by (simp add: storage_block_def)
next
  case (Cons item items)
  have "length (storage_block vm (item # items))
      = 8 + 2 + length item + length (storage_block vm items)"
    by (simp add: storage_block_def length_storage_entry)
  then have "(of_nat (length (storage_block vm (item # items))) :: 32 word)
      = 8 + 2 + of_nat (length item) + of_nat (length (storage_block vm items))"
    by simp
  then show ?case
    using Cons [of "a + 8 + 2 + of_nat (length item)"]
    by (simp only: fold_simps add.assoc)
qed

lemma storage_end_eq: "storage_end items = of_nat (5 + length (storage_block vm items))"
  using fold_storage_end [of items 5 vm] by (simp add: storage_end_def)

lemma unat_of_nat_small: "m < 2 ^ 32 \<Longrightarrow> unat (of_nat m :: 32 word) = m"
  by (simp add: unat_of_nat take_bit_nat_eq_self)

lemma put_map_append: "\<exists>ys. put_map off m bin = bin @ ys"
  by (simp add: put_map_def Let_def writeUint32_def write_at_end)

lemma fold_put_map_append: "\<exists>ys. fold (put_map off) ms bin = bin @ ys"
proof (induction ms arbitrary: bin)
  case Nil
  then show ?case by simp
next
  case (Cons m ms)
  obtain ys where ys: "put_map off m bin = bin @ ys" using put_map_append by blast
  obtain zs where "fold (put_map off) ms (bin @ ys) = (bin @ ys) @ zs" using Cons by blast
  with ys show ?case by simp
qed

lemma put_routine_maps_append: "\<exists>ys. fst (put_routine_maps rs (bin, off)) = bin @ ys"
proof (induction rs arbitrary: bin off)
  case Nil
  then show ?case by simp
next
  case (Cons r rs)
  obtain ys where ys: "fold (put_map off) (sub_sourceMap r) bin = bin @ ys"
    using fold_put_map_append by blast
  obtain zs where "fst (put_routine_maps rs (bin @ ys, off + of_nat (length (sub_ops r))))
      = (bin @ ys) @ zs"
    using Cons by blast
  with ys show ?case by simp
qed

lemma put_routine_heads_append: "\<exists>ys. fst (put_routine_heads vm rs (bin, a)) = bin @ ys"
proof (induction rs arbitrary: bin a)
  case Nil
  then show ?case by simp
next
  case (Cons r rs)
  let ?b = "bin @ opcode vm OP_Subroutine # u32_bytes (nameAddress r) @ u32_bytes a @ [getFlags r]"
  obtain zs where "fst (put_routine_heads vm rs (?b, a + of_nat (length (sub_ops r)))) = ?b @ zs"
    using Cons by blast
  then show ?case by (simp add: Let_def writeUint32_def write_at_end)
qed

lemma fold_append_ops: "\<exists>ys. fold (\<lambda>r b. b @ sub_ops r) rs bin = bin @ ys"
proof (induction rs arbitrary: bin)
  case Nil
  then show ?case by simp
next
  case (Cons r rs)
  obtain zs where "fold (\<lambda>r b. b @ sub_ops r) rs (bin @ sub_ops r) = (bin @ sub_ops r) @ zs"
    using Cons by blast
  then show ?case by simp
qed

lemma put_routine_maps_pair: "\<exists>ys a. put_routine_maps rs (bin, off) = (bin @ ys, a)"
  using put_routine_maps_append [of rs bin off]
  by (cases "put_routine_maps rs (bin, off)") auto

lemma put_routine_heads_pair: "\<exists>ys a'. put_routine_heads vm rs (bin, a) = (bin @ ys, a')"
  using put_routine_heads_append [of vm rs bin a]
  by (cases "put_routine_heads vm rs (bin, a)") auto

lemma build_tail_shape:
  "\<exists>rest. (case put_routine_maps rs (B, off) of
             (bin5, off') \<Rightarrow>
               (case put_routine_heads vm rs (fold (put_map off') sm bin5, a3) of
                  (bin7, a4) \<Rightarrow>
                    fold (\<lambda>r b. b @ sub_ops r) rs
                      (writeUint32 (bin7 @ [m]) (length (bin7 @ [m])) a4) @ mainops @ [h]))
          = B @ rest @ [h]"
proof -
  obtain y5 off' where r5: "put_routine_maps rs (B, off) = (B @ y5, off')"
    using put_routine_maps_pair by blast
  obtain y6 where y6: "fold (put_map off') sm (B @ y5) = (B @ y5) @ y6"
    using fold_put_map_append by blast
  obtain y7 a4 where r7: "put_routine_heads vm rs ((B @ y5) @ y6, a3) = (((B @ y5) @ y6) @ y7, a4)"
    using put_routine_heads_pair by blast
  let ?b7 = "((B @ y5) @ y6) @ y7"
  have b9: "writeUint32 (?b7 @ [m]) (length (?b7 @ [m])) a4 = (?b7 @ [m]) @ u32_bytes a4"
    unfolding writeUint32_def by (rule write_at_end)
  obtain y10 where y10: "fold (\<lambda>r b. b @ sub_ops r) rs ((?b7 @ [m]) @ u32_bytes a4)
      = ((?b7 @ [m]) @ u32_bytes a4) @ y10"
    using fold_append_ops by blast
  have "(case put_routine_maps rs (B, off) of
             (bin5, off') \<Rightarrow>
               (case put_routine_heads vm rs (fold (put_map off') sm bin5, a3) of
                  (bin7, a4) \<Rightarrow>
                    fold (\<lambda>r b. b @ sub_ops r) rs
                      (writeUint32 (bin7 @ [m]) (length (bin7 @ [m])) a4) @ mainops @ [h]))
      = (((?b7 @ [m]) @ u32_bytes a4) @ y10) @ mainops @ [h]"
    by (simp only: r5 prod.case y6 r7 b9 y10)
  also have "\<dots> = B @ (y5 @ y6 @ y7 @ m # u32_bytes a4 @ y10 @ mainops) @ [h]"
    by simp
  finally show ?thesis by blast
qed

lemma write_at_singleton: "write_at [j] (Suc 0) bs = j # bs"
  by (simp add: write_at_def)

lemma write_at_after_first:
  "length xs = length bs \<Longrightarrow> write_at (j # xs) (Suc 0) bs = j # bs"
  by (simp add: write_at_def)

lemma header_write: "writeUint32 (writeUint32 [j] 1 0) 1 e = j # u32_bytes e"
  apply (simp add: writeUint32_def)
  apply (subst write_at_singleton)
  apply (rule write_at_after_first)
  apply simp
  done

lemma build_head:
  "writeUint32
     (fold (put_storage vm) items (writeUint32 (writeUint32 [j] 1 0) 1 e) @ [m])
     (length (fold (put_storage vm) items (writeUint32 (writeUint32 [j] 1 0) 1 e) @ [m])) sms
   = j # u32_bytes e @ storage_block vm items @ m # u32_bytes sms"
proof -
  have b1: "writeUint32 (writeUint32 [j] 1 0) 1 e = j # u32_bytes e"
    by (rule header_write)
  show ?thesis
    apply (simp only: b1 fold_put_storage)
    apply (simp only: writeUint32_def write_at_end)
    apply simp
    done
qed

lemma build_shape:
  "\<exists>rest. build vm p =
     opcode vm OP_Jump # u32_bytes (storage_end (storage p)) @ storage_block vm (storage p)
       @ opcode vm OP_SourceMap # rest @ [opcode vm OP_Halt]"
proof -
  have "\<exists>rest. build vm p =
      (opcode vm OP_Jump # u32_bytes (storage_end (storage p)) @ storage_block vm (storage p)
        @ opcode vm OP_SourceMap # u32_bytes
           (fold (\<lambda>r n. n + of_nat (length (sub_sourceMap r)) * (4 * 3)) (subroutines p) 0
              + of_nat (length (sourceMap p)) * (4 * 3)))
      @ rest @ [opcode vm OP_Halt]"
    unfolding build_def Let_def build_head append_assoc
    by (rule build_tail_shape)
  then obtain rest where "build vm p =
      (opcode vm OP_Jump # u32_bytes (storage_end (storage p)) @ storage_block vm (storage p)
        @ opcode vm OP_SourceMap # u32_bytes
           (fold (\<lambda>r n. n + of_nat (length (sub_sourceMap r)) * (4 * 3)) (subroutines p) 0
              + of_nat (length (sourceMap p)) * (4 * 3)))
      @ rest @ [opcode vm OP_Halt]"
    by blast
  then have "build vm p =
     opcode vm OP_Jump # u32_bytes (storage_end (storage p)) @ storage_block vm (storage p)
       @ opcode vm OP_SourceMap # (u32_bytes
           (fold (\<lambda>r n. n + of_nat (length (sub_sourceMap r)) * (4 * 3)) (subroutines p) 0
              + of_nat (length (sourceMap p)) * (4 * 3)) @ rest) @ [opcode vm OP_Halt]"
    by simp
  then show ?thesis by blast
qed

text \<open>
  C6. The image of \<^verbatim>\<open>build\<close> begins with \<^verbatim>\<open>Jump\<close> and the 32-bit little-endian
  \<open>storage_end\<close>; the storage entries follow from offset 5; \<open>storage_end\<close> is the offset of
  the first byte after them, that byte is the \<^verbatim>\<open>SourceMap\<close> opcode, and the last byte of
  the image is \<^verbatim>\<open>Halt\<close>. The target is an \<^verbatim>\<open>unsigned int\<close>: the hypothesis is that the
  storage block ends below \<open>2 ^ 32\<close>.
\<close>

theorem build_jumps_over_storage:
  assumes "5 + length (storage_block vm (storage p)) < 2 ^ 32"
  shows "build vm p ! 0 = opcode vm OP_Jump
    \<and> slice (build vm p) 1 4 = u32_bytes (storage_end (storage p))
    \<and> slice (build vm p) 5 (length (storage_block vm (storage p))) = storage_block vm (storage p)
    \<and> unat (storage_end (storage p)) = 5 + length (storage_block vm (storage p))
    \<and> unat (storage_end (storage p)) < length (build vm p)
    \<and> build vm p ! unat (storage_end (storage p)) = opcode vm OP_SourceMap
    \<and> last (build vm p) = opcode vm OP_Halt"
proof -
  obtain rest where b: "build vm p =
     opcode vm OP_Jump # u32_bytes (storage_end (storage p)) @ storage_block vm (storage p)
       @ opcode vm OP_SourceMap # rest @ [opcode vm OP_Halt]"
    using build_shape by blast
  let ?n = "length (storage_block vm (storage p))"
  have u: "unat (storage_end (storage p)) = 5 + ?n"
    unfolding storage_end_eq [of _ vm] using assms by (rule unat_of_nat_small)
  have at: "build vm p ! (5 + ?n) = opcode vm OP_SourceMap"
  proof -
    let ?head = "opcode vm OP_Jump # u32_bytes (storage_end (storage p))
                   @ storage_block vm (storage p)"
    have "build vm p = ?head @ opcode vm OP_SourceMap # rest @ [opcode vm OP_Halt]"
      by (simp add: b)
    then have "build vm p ! length ?head = opcode vm OP_SourceMap"
      by (simp only: nth_append_length)
    moreover have "length ?head = 5 + ?n"
      by simp
    ultimately show ?thesis by (simp only:)
  qed
  have l: "last (build vm p) = opcode vm OP_Halt"
    by (simp add: b)
  have s1: "slice (build vm p) 1 4 = u32_bytes (storage_end (storage p))"
    by (simp add: b slice_def)
  have s2: "slice (build vm p) 5 ?n = storage_block vm (storage p)"
    by (simp add: b slice_def)
  have len: "5 + ?n < length (build vm p)"
    by (simp add: b)
  show ?thesis
    using u at l s1 s2 len by (simp add: b)
qed

theorem build_jumps_over_storage_witness:
  "storage program_alias_union = [''T'']
   \<and> unat (storage_end (storage program_alias_union)) = 16
   \<and> build sample_contract program_alias_union ! 0 = opcode sample_contract OP_Jump
   \<and> build sample_contract program_alias_union ! 16 = opcode sample_contract OP_SourceMap
   \<and> last (build sample_contract program_alias_union) = opcode sample_contract OP_Halt"
proof -
  have st: "storage program_alias_union = [''T'']"
    by code_simp
  have n: "length (storage_block sample_contract (storage program_alias_union)) = 11"
    unfolding st by (simp add: storage_block_def storage_entry_def)
  have h: "5 + length (storage_block sample_contract (storage program_alias_union)) < 2 ^ 32"
    unfolding n by simp
  note t = build_jumps_over_storage [OF h]
  from t have u: "unat (storage_end (storage program_alias_union)) = 16"
    unfolding n by simp
  from t have j: "build sample_contract program_alias_union ! 0 = opcode sample_contract OP_Jump"
    by (rule conjunct1)
  from t have m: "build sample_contract program_alias_union
        ! unat (storage_end (storage program_alias_union)) = opcode sample_contract OP_SourceMap"
    by blast
  from t have l: "last (build sample_contract program_alias_union) = opcode sample_contract OP_Halt"
    by blast
  from m have m': "build sample_contract program_alias_union ! 16 = opcode sample_contract OP_SourceMap"
    unfolding u .
  from st u j m' l show ?thesis by blast
qed

subsection \<open>Well-formed programs and steps that append\<close>

lemma declared_ok_previous: "declared_ok f \<Longrightarrow> previous f = Some g \<Longrightarrow> declared_ok g"
  by (cases f) simp

lemma declared_ok_set_symbols:
  "declared_ok f \<Longrightarrow> \<forall>s \<in> set syms. 0 < declarations s \<Longrightarrow> declared_ok (set_symbols syms f)"
  by (cases f) simp

lemma declared_ok_set_conditional: "declared_ok (set_conditional b f) = declared_ok f"
  by (cases f) simp

lemma declared_ok_symbols: "declared_ok f \<Longrightarrow> s \<in> set (symbols f) \<Longrightarrow> 0 < declarations s"
  by (cases f) simp

lemma symbols_set_symbols: "symbols (set_symbols syms f) = syms"
  by (cases f) simp

lemma grows_refl: "grows p p"
  by (simp add: grows_def)

lemma grows_trans: "grows p q \<Longrightarrow> grows q r \<Longrightarrow> grows p r"
  unfolding grows_def
  by (meson le_trans less_le_trans prefix_order.trans)

lemma extends_refl: "extends_program p p"
  by (simp add: extends_program_def grows_refl)

lemma extends_trans: "extends_program p q \<Longrightarrow> extends_program q r \<Longrightarrow> extends_program p r"
  unfolding extends_program_def using grows_trans by auto

lemma wf_last: "wf_program p \<Longrightarrow> activeSubroutines p \<noteq> [] \<Longrightarrow>
    last (activeSubroutines p) < length (subroutines p)"
  unfolding wf_program_def using last_in_set by blast

lemma extends_getOPs:
  assumes "wf_program p" and "extends_program p p'"
  shows "prefix (getOPs p) (getOPs p')"
proof (cases "activeSubroutines p = []")
  case True
  then show ?thesis
    using assms(2) by (simp add: getOPs_def extends_program_def grows_def)
next
  case False
  then have "last (activeSubroutines p) < length (subroutines p)"
    using assms(1) by (rule wf_last [rotated])
  then show ?thesis
    using assms(2) False
    by (simp add: getOPs_def activeSubroutine_def extends_program_def grows_def)
qed

lemma extends_ip: "wf_program p \<Longrightarrow> extends_program p p' \<Longrightarrow> prog_ip p \<le> prog_ip p'"
  unfolding prog_ip_def using extends_getOPs prefix_length_le by blast

lemma wf_active_linked:
  "wf_program p \<Longrightarrow> activeSubroutines p \<noteq> [] \<Longrightarrow> linked (sections (activeSubroutine p))"
  using wf_last [of p] by (simp add: wf_program_def activeSubroutine_def)

text \<open>The links of the sections under the updates of the source.\<close>

lemma linked_iff:
  "linked secs \<longleftrightarrow>
     (\<forall>i < length secs.
        (0 \<le> sec_next (secs ! i) \<longrightarrow>
           int i < sec_next (secs ! i) \<and> nat (sec_next (secs ! i)) < length secs)
        \<and> (0 \<le> sec_up (secs ! i) \<longrightarrow> sec_up (secs ! i) < int i))"
  by (auto simp: linked_def)

lemma linked_update:
  assumes "linked secs" and "sec_next x = sec_next (secs ! i)" and "sec_up x = sec_up (secs ! i)"
  shows "linked (secs[i := x])"
  unfolding linked_iff
proof (intro allI impI)
  fix j assume "j < length (secs[i := x])"
  then have j: "j < length secs" by simp
  let ?y = "secs[i := x] ! j"
  have "sec_next ?y = sec_next (secs ! j) \<and> sec_up ?y = sec_up (secs ! j)"
    using assms(2,3) j by (cases "j = i") simp_all
  with assms(1) j
  show "(0 \<le> sec_next ?y \<longrightarrow> int j < sec_next ?y \<and> nat (sec_next ?y) < length (secs[i := x]))
        \<and> (0 \<le> sec_up ?y \<longrightarrow> sec_up ?y < int j)"
    by (simp add: linked_iff)
qed

lemma linked_snoc:
  assumes "linked secs" and "sec_next x < 0" and "sec_up x < int (length secs)"
  shows "linked (secs @ [x])"
  unfolding linked_iff
proof (intro allI impI)
  fix j assume j: "j < length (secs @ [x])"
  let ?y = "(secs @ [x]) ! j"
  show "(0 \<le> sec_next ?y \<longrightarrow> int j < sec_next ?y \<and> nat (sec_next ?y) < length (secs @ [x]))
        \<and> (0 \<le> sec_up ?y \<longrightarrow> sec_up ?y < int j)"
  proof (cases "j < length secs")
    case True
    then have "?y = secs ! j" by (simp add: nth_append)
    with assms(1) True show ?thesis by (auto simp: linked_iff)
  next
    case False
    with j have "j = length secs" by simp
    then have "?y = x" by simp
    with assms(2,3) \<open>j = length secs\<close> show ?thesis by simp
  qed
qed

lemma linked_set_next:
  assumes "linked secs" and "a < length secs" and "int a < m" and "nat m < length secs"
  shows "linked (secs[a := (secs ! a)\<lparr>sec_next := m\<rparr>])"
  unfolding linked_iff
proof (intro allI impI)
  let ?secs = "secs[a := (secs ! a)\<lparr>sec_next := m\<rparr>]"
  fix j assume "j < length ?secs"
  then have j: "j < length secs" by simp
  let ?y = "?secs ! j"
  show "(0 \<le> sec_next ?y \<longrightarrow> int j < sec_next ?y \<and> nat (sec_next ?y) < length ?secs)
        \<and> (0 \<le> sec_up ?y \<longrightarrow> sec_up ?y < int j)"
  proof (cases "j = a")
    case True
    then have "?y = (secs ! a)\<lparr>sec_next := m\<rparr>" using assms(2) by simp
    with assms True show ?thesis by (auto simp: linked_iff)
  next
    case False
    then have "?y = secs ! j" by simp
    with assms(1) j show ?thesis by (auto simp: linked_iff)
  qed
qed

lemma linked_up: "linked secs \<Longrightarrow> a < length secs \<Longrightarrow> sec_up (secs ! a) < int (length secs)"
  by (cases "0 \<le> sec_up (secs ! a)") (auto simp: linked_iff)

lemma linked_new: "linked [Section_new b st (- 1)]"
  by (simp add: linked_def Section_new_def)

text \<open>A store to the active subroutine that keeps the code it has.\<close>

lemma update_active:
  assumes wf: "wf_program p" and act: "activeSubroutines p \<noteq> []"
    and pre: "prefix (sub_ops (activeSubroutine p)) (sub_ops s)"
    and links: "linked (sections s)"
    and p': "p' = p\<lparr>subroutines := (subroutines p)[last (activeSubroutines p) := s]\<rparr>"
  shows "wf_program p' \<and> extends_program p p' \<and> getOPs p' = sub_ops s"
proof -
  have l: "last (activeSubroutines p) < length (subroutines p)"
    using wf act by (rule wf_last)
  have "wf_program p'"
    using wf links by (auto simp: wf_program_def p' dest!: set_update_subset_insert [THEN subsetD])
  moreover have "extends_program p p'"
    using pre l by (simp add: extends_program_def grows_def p' nth_list_update activeSubroutine_def)
  moreover have "getOPs p' = sub_ops s"
    using act l by (simp add: getOPs_def activeSubroutine_def p')
  ultimately show ?thesis by simp
qed

lemma onActive_appends:
  assumes wf: "wf_program p" and act: "activeSubroutines p \<noteq> []"
    and run: "onActive f p = Inr p'"
    and f: "\<And>s s'. f s = Inr s' \<Longrightarrow> linked (sections s) \<Longrightarrow>
              sub_ops s' = sub_ops s @ bs \<and> linked (sections s')"
  shows "wf_program p' \<and> extends_program p p' \<and> getOPs p' = getOPs p @ bs"
proof -
  obtain s where s: "f (activeSubroutine p) = Inr s"
    and p': "p' = p\<lparr>subroutines := (subroutines p)[last (activeSubroutines p) := s]\<rparr>"
    using run by (auto simp: onActive_def split: sum.splits)
  from f [OF s wf_active_linked [OF wf act]]
  have ops: "sub_ops s = sub_ops (activeSubroutine p) @ bs" and links: "linked (sections s)"
    by simp_all
  from ops have "prefix (sub_ops (activeSubroutine p)) (sub_ops s)"
    by simp
  from update_active [OF wf act this links p'] show ?thesis
    using ops act by (simp add: getOPs_def)
qed

lemma onActiveSection_keeps:
  assumes "onActiveSection g s = Inr s'"
    and "\<And>x. sec_next (g x) = sec_next x" and "\<And>x. sec_up (g x) = sec_up x"
    and "linked (sections s)"
  shows "sub_ops s' = sub_ops s \<and> linked (sections s')
         \<and> length (sections s') = length (sections s) \<and> activeSection s' = activeSection s
         \<and> activeSection s < length (sections s) \<and> sub_index s' = sub_index s"
  using assms by (auto simp: onActiveSection_def linked_update split: if_splits)

lemma sub_pushOp_ops:
  assumes "sub_pushOp vm op s = Inr s'" and "linked (sections s)"
  shows "sub_ops s' = sub_ops s @ [opcode vm op] \<and> linked (sections s')"
proof (cases "isIgnoreNextSectionOP s")
  case True
  then show ?thesis using assms by (auto simp: sub_pushOp_def Let_def)
next
  case False
  let ?s1 = "s\<lparr>sub_ops := sub_ops s @ [opcode vm op]\<rparr>"
  from False assms(1) obtain s2
    where s2: "onActiveSection (\<lambda>x. x\<lparr>lastOp := op, sec_ops := sec_ops x + 1\<rparr>) ?s1 = Inr s2"
      and s': "s' = s2\<lparr>isIgnoreNextSectionOP := False\<rparr>"
    by (auto simp: sub_pushOp_def Let_def split: sum.splits)
  have "linked (sections ?s1)" using assms(2) by simp
  from onActiveSection_keeps [OF s2 _ _ this] show ?thesis
    by (simp add: s')
qed

lemma sub_pushSection_ops:
  assumes "sub_pushSection vm s = Inr s'" and "linked (sections s)"
  shows "sub_ops s' = sub_ops s @ [] \<and> linked (sections s')"
proof -
  from assms(1) obtain s1 where s1: "onActiveSection (\<lambda>x. x\<lparr>hasChild := True\<rparr>) s = Inr s1"
    and s': "s' = s1\<lparr>sections := sections s1 @
                    [Section_new (indeterminate vm (sub_index s1) (length (sections s1)))
                       (sub_ip s1) (int (activeSection s1))],
                  activeSection := length (sections s1)\<rparr>"
    by (auto simp: sub_pushSection_def split: sum.splits)
  note k = onActiveSection_keeps [OF s1 _ _ assms(2)]
  have "linked (sections s1 @
                    [Section_new (indeterminate vm (sub_index s1) (length (sections s1)))
                       (sub_ip s1) (int (activeSection s1))])"
    using k by (intro linked_snoc) (simp_all add: Section_new_def)
  with k show ?thesis by (simp add: s')
qed

lemma sub_popSection_ops:
  assumes "sub_popSection vm s = Inr s'" and "linked (sections s)"
  shows "sub_ops s' = sub_ops s @ [] \<and> linked (sections s')"
proof -
  let ?secs1 = "(sections s)[length (sections s) - 1 := (last (sections s))\<lparr>sec_end := sub_ip s\<rparr>]"
  let ?u = "sec_up (last ?secs1)"
  let ?a = "nat ?u"
  from assms(1) have ne: "sections s \<noteq> []" and u: "0 \<le> ?u" and a: "?a < length ?secs1"
    by (auto simp: sub_popSection_def Let_def split: if_splits)
  have l1: "linked ?secs1"
    using assms(2) ne by (intro linked_update) (simp_all add: last_conv_nth)
  show ?thesis
  proof (cases "sec_next (?secs1 ! ?a) = - 1")
    case False
    then have "s' = s\<lparr>sections := ?secs1, activeSection := ?a\<rparr>"
      using assms(1) ne u a by (simp add: sub_popSection_def Let_def)
    with l1 show ?thesis by simp
  next
    case True
    let ?nxt = "(Section_new (indeterminate vm (sub_index s) (length ?secs1))
                            (sub_ip s) (- 1))\<lparr>sec_up := sec_up (?secs1 ! ?a)\<rparr>"
    let ?secs2 = "(?secs1 @ [?nxt])[?a := (?secs1 ! ?a)\<lparr>sec_next := int (length ?secs1)\<rparr>]"
    have s': "s' = s\<lparr>sections := ?secs2, activeSection := length ?secs1\<rparr>"
      using assms(1) ne u a True by (simp add: sub_popSection_def Let_def)
    have "linked (?secs1 @ [?nxt])"
      using l1 linked_up [OF l1 a] by (intro linked_snoc) (simp_all add: Section_new_def)
    then have "linked ((?secs1 @ [?nxt])[?a := ((?secs1 @ [?nxt]) ! ?a)\<lparr>sec_next := int (length ?secs1)\<rparr>])"
      using a u ne by (intro linked_set_next) simp_all
    then have "linked ?secs2"
      using a by (simp add: nth_append)
    with s' show ?thesis by simp
  qed
qed

lemma sub_blockTailCall_ops:
  assumes "sub_blockTailCall s = Inr s'" and "linked (sections s)"
  shows "sub_ops s' = sub_ops s @ [] \<and> linked (sections s')"
  using onActiveSection_keeps [OF assms(1) [unfolded sub_blockTailCall_def] _ _ assms(2)]
  by simp

lemma sub_registerTypeArgumentUsage_ops:
  assumes "sub_registerTypeArgumentUsage symbol s = Inr s'" and "linked (sections s)"
  shows "sub_ops s' = sub_ops s @ [] \<and> linked (sections s')"
  using onActiveSection_keeps [OF assms(1) [unfolded sub_registerTypeArgumentUsage_def] _ _ assms(2)]
  by (simp add: sec_registerTypeArgumentUsage_def)

lemma sub_end_keeps:
  assumes "sub_end s = Inr s'" and "linked (sections s)"
  shows "sub_ops s' = sub_ops s \<and> linked (sections s')"
  using onActiveSection_keeps [OF assms(1) [unfolded sub_end_def] _ _ assms(2)]
  by simp

lemma main_appends:
  assumes wf: "wf_program p" and act: "activeSubroutines p = []"
    and p': "p' = p\<lparr>ops := ops p @ bs\<rparr>"
  shows "wf_program p' \<and> extends_program p p' \<and> getOPs p' = getOPs p @ bs"
  using wf act by (simp add: p' wf_program_def extends_program_def grows_def getOPs_def)

lemma pushOp_emits:
  assumes "wf_program p" and "pushOp vm op p = Inr p'"
  shows "wf_program p' \<and> extends_program p p' \<and> getOPs p' = getOPs p @ [opcode vm op]"
proof (cases "activeSubroutines p = []")
  case True
  then have "p' = p\<lparr>ops := ops p @ [opcode vm op]\<rparr>"
    using assms(2) by (simp add: pushOp_def)
  with assms(1) True show ?thesis by (rule main_appends)
next
  case False
  then have "onActive (sub_pushOp vm op) p = Inr p'"
    using assms(2) by (simp add: pushOp_def)
  with assms(1) False show ?thesis
    by (rule onActive_appends) (rule sub_pushOp_ops)
qed

text \<open>Steps that leave the code as it is.\<close>

lemma silent_onActive:
  assumes wf: "wf_program p"
    and run: "(if activeSubroutines p \<noteq> [] then onActive f p else Inr p) = Inr p'"
    and f: "\<And>s s'. f s = Inr s' \<Longrightarrow> linked (sections s) \<Longrightarrow>
              sub_ops s' = sub_ops s @ [] \<and> linked (sections s')"
  shows "wf_program p' \<and> extends_program p p' \<and> getOPs p' = getOPs p"
proof (cases "activeSubroutines p = []")
  case True
  then show ?thesis using wf run by (simp add: extends_refl)
next
  case False
  then have "onActive f p = Inr p'"
    using run by simp
  from onActive_appends [OF wf False this f] show ?thesis by simp
qed

lemma pushSection_silent:
  "wf_program p \<Longrightarrow> pushSection vm p = Inr p' \<Longrightarrow>
   wf_program p' \<and> extends_program p p' \<and> getOPs p' = getOPs p"
  unfolding pushSection_def by (rule silent_onActive) (auto dest: sub_pushSection_ops)

lemma popSection_silent:
  "wf_program p \<Longrightarrow> popSection vm p = Inr p' \<Longrightarrow>
   wf_program p' \<and> extends_program p p' \<and> getOPs p' = getOPs p"
  unfolding popSection_def by (rule silent_onActive) (auto dest: sub_popSection_ops)

lemma blockTailCall_silent:
  "wf_program p \<Longrightarrow> blockTailCall p = Inr p' \<Longrightarrow>
   wf_program p' \<and> extends_program p p' \<and> getOPs p' = getOPs p"
  unfolding blockTailCall_def by (rule silent_onActive) (auto dest: sub_blockTailCall_ops)

lemma registerTypeArgumentUsage_silent:
  assumes "wf_program p" and "registerTypeArgumentUsage symbol p = Inr p'"
  shows "wf_program p' \<and> extends_program p p' \<and> getOPs p' = getOPs p"
proof -
  have "(if activeSubroutines p \<noteq> [] then onActive (sub_registerTypeArgumentUsage symbol) p
         else Inr p) = Inr p'"
    using assms(2) by (auto simp: registerTypeArgumentUsage_def split: if_splits)
  with assms(1) show ?thesis
    by (rule silent_onActive) (auto dest: sub_registerTypeArgumentUsage_ops)
qed


text \<open>A store through \<open>getOPs\<close> at the end of the code.\<close>

lemma setOPs_appends:
  assumes wf: "wf_program p"
  shows "wf_program (setOPs (getOPs p @ bs) p) \<and> extends_program p (setOPs (getOPs p @ bs) p)
         \<and> getOPs (setOPs (getOPs p @ bs) p) = getOPs p @ bs"
proof (cases "activeSubroutines p = []")
  case True
  have "setOPs (getOPs p @ bs) p = p\<lparr>ops := ops p @ bs\<rparr>"
    using True by (simp add: setOPs_def getOPs_def)
  from main_appends [OF wf True this] show ?thesis
    using True by (simp add: setOPs_def getOPs_def)
next
  case False
  have pre: "prefix (sub_ops (activeSubroutine p))
               (sub_ops ((activeSubroutine p)\<lparr>sub_ops := getOPs p @ bs\<rparr>))"
    using False by (simp add: getOPs_def)
  have eq: "setOPs (getOPs p @ bs) p = p\<lparr>subroutines := (subroutines p)[last (activeSubroutines p) :=
              (activeSubroutine p)\<lparr>sub_ops := getOPs p @ bs\<rparr>]\<rparr>"
    using False by (simp add: setOPs_def)
  have links: "linked (sections ((activeSubroutine p)\<lparr>sub_ops := getOPs p @ bs\<rparr>))"
    using wf_active_linked [OF wf False] by simp
  from update_active [OF wf False pre links eq] show ?thesis
    by simp
qed

lemma pushAddress_emits:
  assumes "wf_program p" and "p' = pushAddress a 0 p"
  shows "wf_program p' \<and> extends_program p p' \<and> getOPs p' = getOPs p @ u32_bytes a"
  using setOPs_appends [OF assms(1), of "u32_bytes a"]
  by (simp add: assms(2) pushAddress_def writeUint32_def write_at_end)

lemma pushInt32Address_emits:
  assumes "wf_program p" and "p' = pushInt32Address a 0 p"
  shows "wf_program p' \<and> extends_program p p' \<and> getOPs p' = getOPs p @ u32_bytes a"
  using setOPs_appends [OF assms(1), of "u32_bytes a"]
  by (simp add: assms(2) pushInt32Address_def writeInt32_def write_at_end)

lemma pushUint16_emits:
  assumes "wf_program p" and "p' = pushUint16 a 0 p"
  shows "wf_program p' \<and> extends_program p p' \<and> getOPs p' = getOPs p @ u16_bytes a"
  using setOPs_appends [OF assms(1), of "u16_bytes a"]
  by (simp add: assms(2) pushUint16_def writeUint16_def write_at_end)

lemma pushSymbolAddress_emits:
  assumes "wf_program p" and "p' = pushSymbolAddress symbol p"
  shows "wf_program p' \<and> extends_program p p'
         \<and> getOPs p' = getOPs p @ u16_bytes (of_nat (frameOffsetOf (sym_frame symbol) (frame p)))
                          @ u16_bytes (of_nat (sym_index symbol))"
  using setOPs_appends [OF assms(1),
      of "u16_bytes (of_nat (frameOffsetOf (sym_frame symbol) (frame p)))
          @ u16_bytes (of_nat (sym_index symbol))"]
  by (simp add: assms(2) pushSymbolAddress_def writeUint16_def write_at_def Let_def)

text \<open>Steps on the frames, the symbols and the storage: the code and the subroutines stay.\<close>

lemma same_code:
  assumes "wf_program p" and "subroutines p' = subroutines p" and "ops p' = ops p"
    and "activeSubroutines p' = activeSubroutines p" and "declared_ok (frame p')"
  shows "wf_program p' \<and> extends_program p p' \<and> getOPs p' = getOPs p"
  using assms
  by (simp add: wf_program_def extends_program_def grows_def getOPs_def activeSubroutine_def)

lemma wf_declared: "wf_program p \<Longrightarrow> declared_ok (frame p)"
  by (simp add: wf_program_def)

lemma popFrameImplicit_silent:
  assumes "wf_program p"
  shows "wf_program (popFrameImplicit p) \<and> extends_program p (popFrameImplicit p)
         \<and> getOPs (popFrameImplicit p) = getOPs p"
  using assms(1)
proof (rule same_code)
  show "declared_ok (frame (popFrameImplicit p))"
    using wf_declared [OF assms] declared_ok_previous [of "frame p"]
    by (auto simp: popFrameImplicit_def split: option.splits)
qed (simp_all add: popFrameImplicit_def split: option.splits)

lemma declared_ok_newFrame: "declared_ok (frame p) \<Longrightarrow> declared_ok (frame (newFrame p))"
  by (simp add: newFrame_def)

lemma newFrame_silent:
  assumes "wf_program p"
  shows "wf_program (newFrame p) \<and> extends_program p (newFrame p)
         \<and> getOPs (newFrame p) = getOPs p"
  using assms(1)
proof (rule same_code)
  show "declared_ok (frame (newFrame p))"
    using wf_declared [OF assms] by (rule declared_ok_newFrame)
qed (simp_all add: newFrame_def)

lemma setConditional_silent:
  assumes "wf_program p"
  shows "wf_program (setConditional p) \<and> extends_program p (setConditional p)
         \<and> getOPs (setConditional p) = getOPs p"
  using assms(1)
proof (rule same_code)
  show "declared_ok (frame (setConditional p))"
    using wf_declared [OF assms] by (simp add: setConditional_def declared_ok_set_conditional)
qed (simp_all add: setConditional_def)

lemma ignoreNextSectionOP_silent:
  assumes wf: "wf_program p"
  shows "wf_program (ignoreNextSectionOP p) \<and> extends_program p (ignoreNextSectionOP p)
         \<and> getOPs (ignoreNextSectionOP p) = getOPs p"
proof (cases "activeSubroutines p = []")
  case True
  then show ?thesis using wf by (simp add: ignoreNextSectionOP_def extends_refl)
next
  case False
  have pre: "prefix (sub_ops (activeSubroutine p)) (sub_ops (sub_ignoreNextSectionOP (activeSubroutine p)))"
    by (simp add: sub_ignoreNextSectionOP_def)
  have eq: "ignoreNextSectionOP p = p\<lparr>subroutines := (subroutines p)[last (activeSubroutines p) :=
              sub_ignoreNextSectionOP (activeSubroutine p)]\<rparr>"
    using False by (simp add: ignoreNextSectionOP_def)
  have links: "linked (sections (sub_ignoreNextSectionOP (activeSubroutine p)))"
    using wf_active_linked [OF wf False] by (simp add: sub_ignoreNextSectionOP_def)
  from update_active [OF wf False pre links eq] show ?thesis
    using False by (simp add: getOPs_def sub_ignoreNextSectionOP_def)
qed

lemma pushSourceMap_silent:
  assumes wf: "wf_program p"
  shows "wf_program (pushSourceMap sp p) \<and> extends_program p (pushSourceMap sp p)
         \<and> getOPs (pushSourceMap sp p) = getOPs p"
proof (cases "activeSubroutines p = []")
  case True
  with wf show ?thesis
    by (intro same_code) (simp_all add: pushSourceMap_def wf_program_def)
next
  case False
  have pre: "prefix (sub_ops (activeSubroutine p))
               (sub_ops (sub_pushSourceMap (fst sp) (snd sp) (activeSubroutine p)))"
    by (simp add: sub_pushSourceMap_def)
  have eq: "pushSourceMap sp p = p\<lparr>subroutines := (subroutines p)[last (activeSubroutines p) :=
              sub_pushSourceMap (fst sp) (snd sp) (activeSubroutine p)]\<rparr>"
    using False by (simp add: pushSourceMap_def)
  have links: "linked (sections (sub_pushSourceMap (fst sp) (snd sp) (activeSubroutine p)))"
    using wf_active_linked [OF wf False] by (simp add: sub_pushSourceMap_def)
  from update_active [OF wf False pre links eq] show ?thesis
    using False by (simp add: getOPs_def sub_pushSourceMap_def)
qed

lemma pushOpNode_emits:
  assumes wf: "wf_program p" and run: "pushOpNode vm op node p = Inr p'"
  shows "wf_program p' \<and> extends_program p p' \<and> getOPs p' = getOPs p @ [opcode vm op]"
proof (cases node)
  case None
  then show ?thesis using pushOp_emits [OF wf] run by (simp add: pushOpNode_def)
next
  case (Some sp)
  then have r: "pushOp vm op (pushSourceMap sp p) = Inr p'"
    using run by (simp add: pushOpNode_def)
  note a = pushSourceMap_silent [OF wf, of sp]
  from a have "wf_program (pushSourceMap sp p)" by simp
  from pushOp_emits [OF this r] a show ?thesis
    by (auto intro: extends_trans)
qed

lemma pushFrame_emits:
  assumes wf: "wf_program p" and run: "pushFrame vm implicit p = Inr p'"
  shows "wf_program p' \<and> extends_program p p'
         \<and> getOPs p' = getOPs p @ (if implicit then [] else [opcode vm OP_Frame])"
proof (cases implicit)
  case True
  then have "p' = newFrame p" using run by (simp add: pushFrame_def)
  with newFrame_silent [OF wf] True show ?thesis by simp
next
  case False
  then obtain q where q: "pushOp vm OP_Frame p = Inr q" and p': "p' = newFrame q"
    using run by (auto simp: pushFrame_def split: sum.splits)
  note a = pushOp_emits [OF wf q]
  then have "wf_program q" by simp
  from newFrame_silent [OF this] a False show ?thesis
    by (auto simp: p' intro: extends_trans)
qed

lemma popFrame_emits:
  assumes wf: "wf_program p" and run: "popFrame vm p = Inr p'"
  shows "wf_program p' \<and> extends_program p p' \<and> getOPs p' = getOPs p @ [opcode vm OP_FrameEnd]"
proof -
  obtain q where q: "pushOp vm OP_FrameEnd p = Inr q" and p': "p' = popFrameImplicit q"
    using run by (auto simp: popFrame_def split: sum.splits)
  note a = pushOp_emits [OF wf q]
  then have "wf_program q" by simp
  from popFrameImplicit_silent [OF this] a show ?thesis
    by (auto simp: p' intro: extends_trans)
qed

lemma pushSymbol_declared:
  assumes "declared_ok (frame p)"
  shows "declared_ok (frame (fst (pushSymbol name ty node p)))"
proof -
  let ?syms = "symbols (frame p)"
  have old: "\<forall>s \<in> set ?syms. 0 < declarations s"
    using assms declared_ok_symbols by blast
  show ?thesis
  proof (cases "if ty \<noteq> ST_TypeVariable then symbolPosition name ?syms else None")
    case None
    then show ?thesis
      using old assms by (simp add: pushSymbol_def Let_def declared_ok_set_symbols)
  next
    case (Some k)
    have "\<forall>s \<in> set (?syms[k := (?syms ! k)\<lparr>declarations := declarations (?syms ! k) + 1\<rparr>]).
            0 < declarations s"
      using old by (auto dest!: set_update_subset_insert [THEN subsetD])
    then show ?thesis
      using Some assms by (simp add: pushSymbol_def Let_def declared_ok_set_symbols)
  qed
qed

lemma pushSymbol_silent:
  assumes "wf_program p"
  shows "wf_program (fst (pushSymbol name ty node p))
         \<and> extends_program p (fst (pushSymbol name ty node p))
         \<and> getOPs (fst (pushSymbol name ty node p)) = getOPs p"
  using assms(1)
proof (rule same_code)
  show "declared_ok (frame (fst (pushSymbol name ty node p)))"
    using wf_declared [OF assms] by (rule pushSymbol_declared)
qed (simp_all add: pushSymbol_def Let_def split: option.splits)

lemma registerStorage_silent:
  assumes "wf_program p"
  shows "wf_program (fst (registerStorage s p)) \<and> extends_program p (fst (registerStorage s p))
         \<and> getOPs (fst (registerStorage s p)) = getOPs p"
  using assms(1)
proof (rule same_code)
  show "declared_ok (frame (fst (registerStorage s p)))"
    using wf_declared [OF assms] by (simp add: registerStorage_def Let_def)
qed (simp_all add: registerStorage_def Let_def)

lemma pushStorage_emits:
  assumes wf: "wf_program p"
  shows "wf_program (pushStorage s p) \<and> extends_program p (pushStorage s p)
         \<and> getOPs (pushStorage s p) = getOPs p @ u32_bytes (snd (registerStorage s p))"
proof -
  note a = registerStorage_silent [OF wf, of s]
  then have w: "wf_program (fst (registerStorage s p))" by simp
  have eq: "pushStorage s p = pushAddress (snd (registerStorage s p)) 0 (fst (registerStorage s p))"
    by (simp add: pushStorage_def split: prod.splits)
  from pushAddress_emits [OF w eq] a show ?thesis
    by (auto intro: extends_trans)
qed

lemma pushError_appending:
  assumes wf: "wf_program p"
  shows "wf_program (pushError vm code node p) \<and> extends_program p (pushError vm code node p)"
  using wf
  by (simp add: pushError_def Let_def wf_program_def extends_program_def grows_def
      writeUint16_def write_at_def)


subsection \<open>Appending steps\<close>

lemma appendingI:
  "(\<And>p p'. wf_program p \<Longrightarrow> f p = Inr p' \<Longrightarrow> wf_program p' \<and> extends_program p p')
   \<Longrightarrow> appending f"
  by (simp add: appending_def)

lemma appendingD:
  "appending f \<Longrightarrow> wf_program p \<Longrightarrow> f p = Inr p' \<Longrightarrow> wf_program p' \<and> extends_program p p'"
  by (simp add: appending_def)

lemma appending_Inr: "appending Inr"
  by (rule appendingI) (auto simp: extends_refl)

lemma appending_fail: "appending (fail e)"
  by (rule appendingI) (simp add: fail_def)

lemma appending_lift:
  "(\<And>p. wf_program p \<Longrightarrow> wf_program (f p) \<and> extends_program p (f p)) \<Longrightarrow> appending (lift f)"
  by (rule appendingI) (auto simp: lift_def)

lemma seq_Cons_Inr: "seq (f # fs) p = Inr p' \<longleftrightarrow> (\<exists>q. f p = Inr q \<and> seq fs q = Inr p')"
  by (auto split: sum.splits)

lemma seq_Nil_Inr: "seq [] p = Inr p' \<longleftrightarrow> p' = p"
  by auto

lemma appending_Nil: "appending (seq [])"
  by (rule appendingI) (auto simp: extends_refl)

lemma appending_Cons:
  assumes f: "appending f" and fs: "appending (seq fs)"
  shows "appending (seq (f # fs))"
proof (rule appendingI)
  fix p p' assume wf: "wf_program p" and run: "seq (f # fs) p = Inr p'"
  then obtain q where q: "f p = Inr q" and r: "seq fs q = Inr p'"
    by (auto split: sum.splits)
  from appendingD [OF f wf q] have a: "wf_program q" "extends_program p q" by simp_all
  from appendingD [OF fs a(1) r] a(2) show "wf_program p' \<and> extends_program p p'"
    by (auto intro: extends_trans)
qed

lemma appending_seq:
  assumes "\<And>f. f \<in> set fs \<Longrightarrow> appending f"
  shows "appending (seq fs)"
  using assms by (induction fs) (simp_all add: appending_Nil appending_Cons del: seq.simps)

lemma appending_seq_map:
  "(\<And>x. x \<in> set xs \<Longrightarrow> appending (g x)) \<Longrightarrow> appending (seq (map g xs))"
  by (rule appending_seq) auto

lemma appending_if: "appending f \<Longrightarrow> appending g \<Longrightarrow> appending (if b then f else g)"
  by simp

lemma appending_option:
  "appending f \<Longrightarrow> (\<And>x. v = Some x \<Longrightarrow> appending (g x))
   \<Longrightarrow> appending (case v of None \<Rightarrow> f | Some x \<Rightarrow> g x)"
  by (cases v) simp_all

lemma appending_args:
  "(\<And>l f. v = Some l \<Longrightarrow> f \<in> set l \<Longrightarrow> appending f)
   \<Longrightarrow> appending (case v of None \<Rightarrow> Inr | Some l \<Rightarrow> seq l)"
  by (cases v) (auto intro: appending_Inr appending_seq)

lemma appending_pushOp: "appending (pushOp vm op)"
  by (rule appendingI) (auto dest: pushOp_emits)

lemma appending_pushOpNode: "appending (pushOpNode vm op node)"
  by (rule appendingI) (auto dest: pushOpNode_emits)

lemma appending_pushFrame: "appending (pushFrame vm implicit)"
  by (rule appendingI) (auto dest: pushFrame_emits)

lemma appending_popFrame: "appending (popFrame vm)"
  by (rule appendingI) (auto dest: popFrame_emits)

lemma appending_pushSection: "appending (pushSection vm)"
  by (rule appendingI) (auto dest: pushSection_silent)

lemma appending_popSection: "appending (popSection vm)"
  by (rule appendingI) (auto dest: popSection_silent)

lemma appending_blockTailCall: "appending blockTailCall"
  by (rule appendingI) (auto dest: blockTailCall_silent)

lemma appending_registerTypeArgumentUsage: "appending (registerTypeArgumentUsage symbol)"
  by (rule appendingI) (auto dest: registerTypeArgumentUsage_silent)

lemma appending_pushStorage: "appending (lift (pushStorage s))"
  by (rule appending_lift) (simp add: pushStorage_emits)

lemma appending_pushAddress: "appending (lift (pushAddress a 0))"
  by (rule appending_lift) (simp add: pushAddress_emits)

lemma appending_pushUint16: "appending (lift (pushUint16 a 0))"
  by (rule appending_lift) (simp add: pushUint16_emits)

lemma appending_pushError: "appending (lift (pushError vm code node))"
  by (rule appending_lift) (simp add: pushError_appending)

lemma appending_pushSymbolAddress: "appending (lift (pushSymbolAddress symbol))"
  by (rule appending_lift) (simp add: pushSymbolAddress_emits)

lemma appending_ignoreNextSectionOP: "appending (lift ignoreNextSectionOP)"
  by (rule appending_lift) (simp add: ignoreNextSectionOP_silent)

lemma appending_popFrameImplicit: "appending (lift popFrameImplicit)"
  by (rule appending_lift) (simp add: popFrameImplicit_silent)

lemma appending_setConditional: "appending (lift setConditional)"
  by (rule appending_lift) (simp add: setConditional_silent)

lemma appending_pushSymbol: "appending (lift (\<lambda>p. fst (pushSymbol name ty node p)))"
  by (rule appending_lift) (simp add: pushSymbol_silent)

lemma appending_routineAddress:
  "appending (\<lambda>p. Inr (pushAddress (of_nat (sub_index (subroutines p ! r))) 0 p))"
  by (rule appendingI) (auto simp: pushAddress_emits)

lemmas appending_steps =
  appending_Inr appending_fail appending_pushOp appending_pushOpNode appending_pushFrame
  appending_popFrame appending_pushSection appending_popSection appending_blockTailCall
  appending_registerTypeArgumentUsage appending_pushStorage appending_pushAddress
  appending_pushUint16 appending_pushError appending_pushSymbolAddress
  appending_ignoreNextSectionOP appending_popFrameImplicit appending_setConditional
  appending_pushSymbol appending_routineAddress

lemma appending_pushStringLiteral: "appending (pushStringLiteral vm s node)"
proof -
  have "pushStringLiteral vm s node = seq [pushOpNode vm OP_StringLiteral (Some node), lift (pushStorage s)]"
    by (rule ext) (simp add: pushStringLiteral_def lift_def split: sum.splits)
  then show ?thesis
    by (simp add: appending_Cons appending_Nil appending_steps)
qed

lemma appending_cannotFind: "appending (cannotFind vm node)"
  unfolding cannotFind_def by (intro appending_Cons appending_Nil appending_steps)

lemma appending_loadSymbol: "appending (loadSymbol vm node symbol)"
  unfolding loadSymbol_def by (intro appending_Cons appending_Nil appending_steps)

lemma appending_callRoutine:
  assumes "\<And>l f. typeArguments = Some l \<Longrightarrow> f \<in> set l \<Longrightarrow> appending f"
  shows "appending (callRoutine vm node symbol typeArguments)"
proof -
  have a: "appending (case typeArguments of None \<Rightarrow> Inr | Some l \<Rightarrow> seq l)"
    using assms by (rule appending_args)
  have b: "appending (\<lambda>p. case routine symbol of
                 None \<Rightarrow> Inl NotAnExistingRoutine
               | Some r \<Rightarrow> Inr (pushAddress (of_nat (sub_index (subroutines p ! r))) 0 p))"
    by (cases "routine symbol") (auto intro: appendingI appending_routineAddress)
  show ?thesis
    unfolding callRoutine_def by (intro appending_Cons appending_Nil appending_steps a b)
qed

lemma appending_lowerTypeReference:
  assumes "\<And>l f. typeArguments = Some l \<Longrightarrow> f \<in> set l \<Longrightarrow> appending f"
  shows "appending (lowerTypeReference vm typeName typeArguments)"
proof (cases "as_Identifier typeName")
  case None
  then show ?thesis by (simp add: lowerTypeReference_def appending_fail)
next
  case (Some i)
  obtain isp name where i: "i = (isp, name)" by (cases i)
  have c: "appending (callRoutine vm isp symbol typeArguments)" for symbol
    using assms by (rule appending_callRoutine)
  have l: "appending (seq [loadSymbol vm isp symbol,
             (if sym_type symbol = ST_TypeArgument then registerTypeArgumentUsage symbol else Inr)])"
    for symbol
    by (intro appending_Cons appending_Nil appending_if appending_steps appending_loadSymbol)
  show ?thesis
  proof (rule appendingI)
    fix p p' assume wf: "wf_program p"
      and run: "lowerTypeReference vm typeName typeArguments p = Inr p'"
    show "wf_program p' \<and> extends_program p p'"
    proof (cases "findSymbol name p")
      case None
      then have "cannotFind vm isp p = Inr p'"
        using run Some i by (simp add: lowerTypeReference_def)
      with appending_cannotFind wf show ?thesis by (rule appendingD)
    next
      case (Some symbol)
      show ?thesis
      proof (cases "sym_type symbol = ST_TypeArgument \<or> sym_type symbol = ST_TypeVariable")
        case True
        then have "seq [loadSymbol vm isp symbol,
             (if sym_type symbol = ST_TypeArgument then registerTypeArgumentUsage symbol else Inr)] p
             = Inr p'"
          using run Some \<open>as_Identifier typeName = Some i\<close> i
          by (simp add: lowerTypeReference_def)
        with l wf show ?thesis by (rule appendingD)
      next
        case False
        then have "callRoutine vm isp symbol typeArguments p = Inr p'"
          using run Some \<open>as_Identifier typeName = Some i\<close> i
          by (simp add: lowerTypeReference_def)
        with c wf show ?thesis by (rule appendingD)
      qed
    qed
  qed
qed

lemma appending_lowerIdentifier:
  assumes "\<And>l f. typeArguments = Some l \<Longrightarrow> f \<in> set l \<Longrightarrow> appending f"
  shows "appending (lowerIdentifier vm node escapedText typeArguments)"
proof (rule appendingI)
  fix p p' assume wf: "wf_program p"
    and run: "lowerIdentifier vm node escapedText typeArguments p = Inr p'"
  have c: "appending (callRoutine vm node symbol typeArguments)" for symbol
    using assms by (rule appending_callRoutine)
  show "wf_program p' \<and> extends_program p p'"
  proof (cases "findSymbol escapedText p")
    case None
    then have "cannotFind vm node p = Inr p'"
      using run by (simp add: lowerIdentifier_def)
    with appending_cannotFind wf show ?thesis by (rule appendingD)
  next
    case (Some symbol)
    show ?thesis
    proof (cases "sym_type symbol = ST_TypeArgument \<or> sym_type symbol = ST_TypeVariable")
      case True
      then have "loadSymbol vm node symbol p = Inr p'"
        using run Some by (simp add: lowerIdentifier_def)
      with appending_loadSymbol wf show ?thesis by (rule appendingD)
    next
      case False
      then have "callRoutine vm node symbol typeArguments p = Inr p'"
        using run Some by (simp add: lowerIdentifier_def)
      with c wf show ?thesis by (rule appendingD)
    qed
  qed
qed

lemma appending_lowerAssignment:
  assumes "appending right"
  shows "appending (lowerAssignment vm left operatorToken right)"
proof (cases "as_Identifier left")
  case None
  then show ?thesis by (simp add: lowerAssignment_def appending_fail)
next
  case (Some i)
  obtain isp name where i: "i = (isp, name)" by (cases i)
  have s: "appending (seq [right, pushOpNode vm OP_Set (Some operatorToken),
             (\<lambda>q. Inr (pushAddress (of_nat (sub_index (subroutines q ! r))) 0 q))])" for r
    by (intro appending_Cons appending_Nil appending_steps assms)
  show ?thesis
  proof (rule appendingI)
    fix p p' assume wf: "wf_program p"
      and run: "lowerAssignment vm left operatorToken right p = Inr p'"
    show "wf_program p' \<and> extends_program p p'"
    proof (cases "findSymbol name p")
      case None
      then have "cannotFind vm isp p = Inr p'"
        using run Some i by (simp add: lowerAssignment_def)
      with appending_cannotFind wf show ?thesis by (rule appendingD)
    next
      case (Some symbol)
      then obtain r where "routine symbol = Some r"
        and "seq [right, pushOpNode vm OP_Set (Some operatorToken),
             (\<lambda>q. Inr (pushAddress (of_nat (sub_index (subroutines q ! r))) 0 q))] p = Inr p'"
        using run \<open>as_Identifier left = Some i\<close> i
        by (auto simp: lowerAssignment_def split: option.splits)
      with s wf show ?thesis by (auto dest: appendingD simp del: seq.simps)
    qed
  qed
qed

lemma appending_templatePiece: "appending (templatePiece vm sub n)"
  by (cases n)
     (auto intro!: appending_Cons appending_Nil appending_steps split: option.splits)

subsection \<open>Declarations\<close>

lemma symbolPosition_None:
  "symbolPosition name syms = None \<Longrightarrow> find (\<lambda>s. sym_name s = name) syms = None"
  by (induction syms) (auto split: if_splits)

lemma find_snoc: "find P xs = None \<Longrightarrow> P x \<Longrightarrow> find P (xs @ [x]) = Some x"
  by (induction xs) (auto split: if_splits)

lemma symbolPosition_Some: "symbolPosition name syms = Some k \<Longrightarrow> k < length syms"
  by (induction syms arbitrary: k) (auto split: if_splits)

lemma linked_Subroutine_new: "linked (sections (Subroutine_new b name))"
  by (simp add: Subroutine_new_def linked_new)

lemma pushSubroutineNameLess_effect:
  assumes "wf_program p"
  shows "wf_program (fst (pushSubroutineNameLess vm p))
         \<and> grows p (fst (pushSubroutineNameLess vm p))
         \<and> activeSubroutines (fst (pushSubroutineNameLess vm p))
             = activeSubroutines p @ [length (subroutines p)]"
  using assms
  by (auto simp: pushSubroutineNameLess_def Let_def newFrame_def wf_program_def grows_def
      nth_append less_Suc_eq linked_Subroutine_new)

lemma popFrameImplicit_fields:
  "subroutines (popFrameImplicit p) = subroutines p"
  "activeSubroutines (popFrameImplicit p) = activeSubroutines p"
  "ops (popFrameImplicit p) = ops p"
  by (simp_all add: popFrameImplicit_def split: option.splits)

lemma popSubroutine_effect:
  assumes wf: "wf_program q" and run: "popSubroutine vm q = Inr (q', s)"
  shows "activeSubroutines q \<noteq> [] \<and> activeSubroutines q' = butlast (activeSubroutines q)
         \<and> length (subroutines q') = length (subroutines q) \<and> ops q' = ops q
         \<and> (\<forall>j. j \<noteq> last (activeSubroutines q) \<longrightarrow> subroutines q' ! j = subroutines q ! j)
         \<and> declared_ok (frame q') \<and> (\<forall>x \<in> set (subroutines q'). linked (sections x))"
proof -
  let ?q1 = "popFrameImplicit q"
  have w1: "wf_program ?q1"
    using popFrameImplicit_silent [OF wf] by simp
  then have d: "declared_ok (frame ?q1)"
    by (simp add: wf_program_def)
  from run have act: "activeSubroutines q \<noteq> []"
    by (auto simp: popSubroutine_def split: if_splits)
  then have act1: "activeSubroutines ?q1 \<noteq> []"
    by (simp add: popFrameImplicit_fields)
  from run act obtain s1 s2 where s1: "sub_end (activeSubroutine ?q1) = Inr s1"
    and s2: "optimise vm s1 = Some s2"
    and s3: "s = s2\<lparr>sub_ops := sub_ops s2 @ [opcode vm OP_Return]\<rparr>"
    and q': "q' = ?q1\<lparr>subroutines := (subroutines ?q1)[last (activeSubroutines ?q1) := s],
                       activeSubroutines := butlast (activeSubroutines ?q1)\<rparr>"
    by (auto simp: popSubroutine_def Let_def split: if_splits sum.splits option.splits)
  have "linked (sections s1)"
    using sub_end_keeps [OF s1 wf_active_linked [OF w1 act1]] by simp
  moreover have "sections s2 = sections s1"
    using s2 by (auto simp: optimise_def)
  ultimately have ls: "linked (sections s)"
    by (simp add: s3)
  have "\<forall>x \<in> set (subroutines q'). linked (sections x)"
    using w1 ls by (auto simp: q' wf_program_def dest!: set_update_subset_insert [THEN subsetD])
  then show ?thesis
    using act d by (simp add: q' popFrameImplicit_fields)
qed

text \<open>
  A body lowered into a subroutine that did not exist before, then \<^verbatim>\<open>popSubroutine\<close>: the
  code that was there is still there.
\<close>

lemma bracket:
  assumes wf: "wf_program p" and g: "grows p q"
    and act: "activeSubroutines q = activeSubroutines p @ [r]"
    and fresh: "length (subroutines p) \<le> r"
    and wf1: "wf_program q1" and ext: "extends_program q q1"
    and pop: "popSubroutine vm q1 = Inr (q2, s)"
  shows "wf_program q2 \<and> extends_program p q2"
proof -
  note e = popSubroutine_effect [OF wf1 pop]
  have act1: "activeSubroutines q1 = activeSubroutines p @ [r]"
    using ext act by (simp add: extends_program_def)
  have g1: "grows p q1"
    using g ext by (auto simp: extends_program_def intro: grows_trans)
  have act2: "activeSubroutines q2 = activeSubroutines p"
    using e act1 by simp
  have len: "length (subroutines p) \<le> length (subroutines q2)"
    using g1 e by (simp add: grows_def)
  have "wf_program q2"
    using wf e len act2 by (auto simp: wf_program_def)
  moreover have "grows p q2"
    using g1 e fresh act1 by (auto simp: grows_def)
  ultimately show ?thesis
    using act2 by (simp add: extends_program_def)
qed

lemma pushSymbolForRoutine_effect:
  assumes wf: "wf_program p" and ty: "ty \<noteq> ST_TypeVariable"
    and run: "pushSymbolForRoutine vm name ty node p = (p1, symbol)"
  shows "wf_program p1 \<and> extends_program p p1
         \<and> (\<forall>p2 i. \<not> 1 < declarations symbol \<longrightarrow> pushSubroutine name p1 = Inr (p2, i) \<longrightarrow>
               wf_program p2 \<and> grows p p2
               \<and> activeSubroutines p2 = activeSubroutines p @ [length (subroutines p)])"
proof -
  obtain c prev i a syms where fr: "frame p = Frame c prev i a syms"
    by (cases "frame p")
  have dok: "declared_ok (frame p)"
    using wf by (rule wf_declared)
  have old: "\<forall>s \<in> set syms. 0 < declarations s"
    using dok fr by simp
  have prevok: "case prev of None \<Rightarrow> True | Some f \<Rightarrow> declared_ok f"
    using dok fr by simp
  have act: "\<forall>i \<in> set (activeSubroutines p). i < length (subroutines p)"
    using wf by (simp add: wf_program_def)
  show ?thesis
  proof (cases "symbolPosition name syms")
    case None
    have facts: "subroutines p1 = butlast (subroutines p1) @ [last (subroutines p1)]"
      "butlast (subroutines p1) = subroutines p"
      "ops p1 = ops p" "activeSubroutines p1 = activeSubroutines p"
      "frame p1 = Frame c prev i a (syms @ [symbol])"
      "routine symbol = Some (length (subroutines p))" "sym_name symbol = name"
      "declarations symbol = 1"
      using run None ty
      by (auto simp: pushSymbolForRoutine_def pushSymbol_def registerStorage_def Let_def fr)
    have lk: "\<forall>x \<in> set (subroutines p1). linked (sections x)"
      using run None ty wf
      by (auto simp: pushSymbolForRoutine_def pushSymbol_def registerStorage_def Let_def fr
          wf_program_def linked_Subroutine_new)
    have len: "length (subroutines p1) = Suc (length (subroutines p))"
      using facts(1,2) by (metis length_append_singleton)
    have nth: "\<forall>j < length (subroutines p). subroutines p1 ! j = subroutines p ! j"
      using facts(1,2) by (metis nth_append)
    have w1: "wf_program p1"
      using act old prevok len facts lk by (auto simp: wf_program_def)
    have e1: "extends_program p p1"
      using facts len nth by (simp add: extends_program_def grows_def)
    have "wf_program p2 \<and> grows p p2
          \<and> activeSubroutines p2 = activeSubroutines p @ [length (subroutines p)]"
      if "pushSubroutine name p1 = Inr (p2, j)" for p2 j
    proof -
      have "find (\<lambda>s. sym_name s = name) (syms @ [symbol]) = Some symbol"
        using symbolPosition_None [OF None] facts(7) by (rule find_snoc)
      then have p2: "p2 = (newFrame p1)\<lparr>activeSubroutines := activeSubroutines (newFrame p1)
                        @ [length (subroutines p)]\<rparr>"
        using that facts by (simp add: pushSubroutine_def Let_def)
      have "declared_ok (frame p2)"
        using w1 by (simp add: p2 wf_program_def newFrame_def)
      then have "wf_program p2"
        using act len facts(4) lk by (auto simp: wf_program_def p2 newFrame_def)
      moreover have "grows p p2"
        using e1 by (simp add: extends_program_def grows_def p2 newFrame_def)
      ultimately show ?thesis
        using facts(4) by (simp add: p2 newFrame_def)
    qed
    with w1 e1 show ?thesis by blast
  next
    case (Some k)
    have k: "k < length syms"
      using Some by (rule symbolPosition_Some)
    then have "0 < declarations (syms ! k)"
      using old by simp
    have upd: "\<forall>s \<in> set (syms[k := x]). 0 < declarations s" if "0 < declarations x" for x
      using old that by (auto dest!: set_update_subset_insert [THEN subsetD])
    have f1: "frame p1 = Frame c prev i a (syms[k := symbol])"
      and x: "0 < declarations symbol"
      using run Some ty k
      by (auto simp: pushSymbolForRoutine_def pushSymbol_def registerStorage_def Let_def fr
          split: if_splits)
    have d1: "declared_ok (frame p1)"
      using upd [OF x] prevok by (simp add: f1)
    have facts: "prefix (subroutines p) (subroutines p1)"
      "ops p1 = ops p" "activeSubroutines p1 = activeSubroutines p"
      "declared_ok (frame p1)"
      "declarations symbol = Suc (declarations (syms ! k))"
      using run Some ty k d1
      by (auto simp: pushSymbolForRoutine_def pushSymbol_def registerStorage_def Let_def fr
          split: if_splits)
    have len: "length (subroutines p) \<le> length (subroutines p1)"
      using facts(1) by (rule prefix_length_le)
    have nth: "\<forall>j < length (subroutines p). subroutines p1 ! j = subroutines p ! j"
      using facts(1) by (auto simp: prefix_def nth_append)
    have lk: "\<forall>x \<in> set (subroutines p1). linked (sections x)"
      using run Some ty wf
      by (auto simp: pushSymbolForRoutine_def pushSymbol_def registerStorage_def Let_def fr
          wf_program_def linked_Subroutine_new split: if_splits)
    have w1: "wf_program p1"
      using act len facts lk by (auto simp: wf_program_def)
    have e1: "extends_program p p1"
      using facts len nth by (simp add: extends_program_def grows_def)
    have "1 < declarations symbol"
      using facts(5) \<open>0 < declarations (syms ! k)\<close> by simp
    with w1 e1 show ?thesis by blast
  qed
qed


lemma seq_append:
  "seq (fs @ gs) p = (case seq fs p of Inl e \<Rightarrow> Inl e | Inr q \<Rightarrow> seq gs q)"
  by (induction fs arbitrary: p) (auto split: sum.splits)

lemma discard_Inr: "discard f p = Inr p' \<longleftrightarrow> (\<exists>x. f p = Inr (p', x))"
  by (auto simp: discard_def split: sum.splits)

lemma bracket_seq:
  assumes wf: "wf_program p" and g: "grows p q" and wfq: "wf_program q"
    and act: "activeSubroutines q = activeSubroutines p @ [r]"
    and fresh: "length (subroutines p) \<le> r"
    and fs: "\<And>f. f \<in> set fs \<Longrightarrow> appending f"
    and gs: "\<And>f. f \<in> set gs \<Longrightarrow> appending f"
    and run: "seq (fs @ discard (popSubroutine vm) # gs) q = Inr p'"
  shows "wf_program p' \<and> extends_program p p'"
proof -
  obtain q1 q2 s where q1: "seq fs q = Inr q1" and pop: "popSubroutine vm q1 = Inr (q2, s)"
    and q2: "seq gs q2 = Inr p'"
    using run by (auto simp: seq_append discard_Inr split: sum.splits)
  have "appending (seq fs)" using fs by (rule appending_seq)
  from appendingD [OF this wfq q1] have a: "wf_program q1" "extends_program q q1"
    by simp_all
  from bracket [OF wf g act fresh a pop] have b: "wf_program q2" "extends_program p q2"
    by simp_all
  have "appending (seq gs)" using gs by (rule appending_seq)
  from appendingD [OF this b(1) q2] b(2) show ?thesis
    by (auto intro: extends_trans)
qed

lemma appending_lowerTypeAlias:
  assumes tps: "\<And>l f. typeParameters = Some l \<Longrightarrow> f \<in> set l \<Longrightarrow> appending f"
    and ty: "appending ty"
  shows "appending (lowerTypeAlias vm node name typeParameters ty)"
proof (rule appendingI)
  fix p p' assume wf: "wf_program p"
    and run: "lowerTypeAlias vm node name typeParameters ty p = Inr p'"
  obtain p1 symbol where ps: "pushSymbolForRoutine vm name ST_Type node p = (p1, symbol)"
    by (cases "pushSymbolForRoutine vm name ST_Type node p")
  have "ST_Type \<noteq> ST_TypeVariable" by simp
  note e = pushSymbolForRoutine_effect [OF wf this ps]
  show "wf_program p' \<and> extends_program p p'"
  proof (cases "1 < declarations symbol")
    case True
    then have "p' = p1" using run by (simp add: lowerTypeAlias_def ps)
    with e show ?thesis by simp
  next
    case False
    let ?fs = "[(if typeParameters = None \<or> length (the typeParameters) = 0
                 then blockTailCall else Inr),
                (case typeParameters of None \<Rightarrow> Inr | Some l \<Rightarrow> seq l), ty]"
    obtain p2 i where p2: "pushSubroutine name p1 = Inr (p2, i)"
      and r: "seq (?fs @ discard (popSubroutine vm) # []) p2 = Inr p'"
      using run False by (auto simp: lowerTypeAlias_def ps discard_Inr split: sum.splits)
    from e False p2 have q: "wf_program p2" "grows p p2"
      "activeSubroutines p2 = activeSubroutines p @ [length (subroutines p)]"
      by blast+
    have a: "appending (case typeParameters of None \<Rightarrow> Inr | Some l \<Rightarrow> seq l)"
      using tps by (rule appending_args)
    have fs: "appending f" if "f \<in> set ?fs" for f
      using that a ty by (auto simp: appending_steps)
    show ?thesis
      using wf q(2) q(1) q(3) _ fs _ r by (rule bracket_seq) simp_all
  qed
qed

lemma appending_lowerTypeParameter:
  assumes d: "\<And>f. defaultType = Some f \<Longrightarrow> appending f"
  shows "appending (lowerTypeParameter vm node name defaultType)"
proof (rule appendingI)
  fix p p' assume wf: "wf_program p"
    and run: "lowerTypeParameter vm node name defaultType p = Inr p'"
  let ?p1 = "fst (pushSymbol (snd name) ST_TypeArgument node p)"
  note a = pushSymbol_silent [OF wf, of "snd name" ST_TypeArgument node]
  then have wf1: "wf_program ?p1" and e1: "extends_program p ?p1" by simp_all
  show "wf_program p' \<and> extends_program p p'"
  proof (cases defaultType)
    case None
    then have "pushOpNode vm OP_TypeArgument (Some (fst name)) ?p1 = Inr p'"
      using run by (simp add: lowerTypeParameter_def split: prod.splits)
    from pushOpNode_emits [OF wf1 this] e1 show ?thesis
      by (auto intro: extends_trans)
  next
    case (Some f)
    let ?p2 = "fst (pushSubroutineNameLess vm ?p1)"
    obtain p3 p4 r where p3: "f ?p2 = Inr p3" and pop: "popSubroutine vm p3 = Inr (p4, r)"
      and fin: "seq [pushOpNode vm OP_TypeArgumentDefault (Some (fst name)),
                     lift (pushAddress (of_nat (sub_index r)) 0)] p4 = Inr p'"
      using run Some
      by (auto simp: lowerTypeParameter_def simp del: seq.simps split: prod.splits sum.splits)
    note n = pushSubroutineNameLess_effect [OF wf1, of vm]
    then have wf2: "wf_program ?p2" and g2: "grows ?p1 ?p2"
      and act2: "activeSubroutines ?p2 = activeSubroutines ?p1 @ [length (subroutines ?p1)]"
      by simp_all
    from appendingD [OF d [OF Some] wf2 p3] have b: "wf_program p3" "extends_program ?p2 p3"
      by simp_all
    from bracket [OF wf1 g2 act2 _ b pop] have c: "wf_program p4" "extends_program ?p1 p4"
      by simp_all
    have "appending (seq [pushOpNode vm OP_TypeArgumentDefault (Some (fst name)),
                     lift (pushAddress (of_nat (sub_index r)) 0)])"
      by (intro appending_Cons appending_Nil appending_steps)
    from appendingD [OF this c(1) fin] c(2) e1 show ?thesis
      by (auto intro: extends_trans)
  qed
qed

lemma appending_lowerVariable:
  assumes t: "\<And>f. ty = Some f \<Longrightarrow> appending f"
    and i: "\<And>f. initializer = Some f \<Longrightarrow> appending f"
  shows "appending (lowerVariable vm name ty initializer isConst)"
proof (rule appendingI)
  fix p p' assume wf: "wf_program p"
    and run: "lowerVariable vm name ty initializer isConst p = Inr p'"
  obtain p1 symbol where ps: "pushSymbolForRoutine vm (snd name) ST_Variable (fst name) p = (p1, symbol)"
    by (cases "pushSymbolForRoutine vm (snd name) ST_Variable (fst name) p")
  have "ST_Variable \<noteq> ST_TypeVariable" by simp
  note e = pushSymbolForRoutine_effect [OF wf this ps]
  show "wf_program p' \<and> extends_program p p'"
  proof (cases "1 < declarations symbol")
    case True
    then have "p' = p1" using run by (simp add: lowerVariable_def ps)
    with e show ?thesis by simp
  next
    case False
    obtain p2 idx where p2: "pushSubroutine (snd name) p1 = Inr (p2, idx)"
      using run False by (auto simp: lowerVariable_def ps split: sum.splits)
    from e False p2 have q: "wf_program p2" "grows p p2"
      "activeSubroutines p2 = activeSubroutines p @ [length (subroutines p)]"
      by blast+
    have F: "\<not> Suc 0 < declarations symbol" using False by simp
    note rest = run F p2
    show ?thesis
    proof (cases ty)
      case (Some f)
      let ?g = "(case initializer of
                   Some i \<Rightarrow> seq [i, pushOp vm OP_Call, lift (pushAddress (of_nat idx) 0),
                                   lift (pushUint16 0 0), pushOpNode vm OP_Assign (Some (fst name))]
                 | None \<Rightarrow> Inr)"
      have r: "seq ([blockTailCall, f] @ discard (popSubroutine vm) # [?g]) p2 = Inr p'"
        using rest Some by (simp add: lowerVariable_def ps)
      have g: "appending ?g"
        using i by (cases initializer)
          (auto intro!: appending_Cons appending_Nil appending_steps)
      show ?thesis
        using wf q(2) q(1) q(3) _ _ _ r
        by (rule bracket_seq) (auto simp: g t [OF Some] appending_steps)
    next
      case None
      show ?thesis
      proof (cases initializer)
        case (Some f)
        let ?g = "(if \<not> isConst
                   then seq [f, pushOp vm OP_Set, lift (pushAddress (of_nat idx) 0)] else Inr)"
        have r: "seq ([f, (if \<not> isConst then pushOp vm OP_Widen else Inr)]
                   @ discard (popSubroutine vm) # [?g]) p2 = Inr p'"
          using rest None Some by (simp add: lowerVariable_def ps)
        have f: "appending f" using Some by (rule i)
        have g: "appending ?g"
          using f by (auto intro!: appending_Cons appending_Nil appending_steps)
        show ?thesis
          using wf q(2) q(1) q(3) _ _ _ r
          by (rule bracket_seq) (auto simp: g f appending_steps)
      next
        case n: None
        have r: "seq ([pushOp vm OP_Any] @ discard (popSubroutine vm) # []) p2 = Inr p'"
          using rest None n by (simp add: lowerVariable_def ps)
        show ?thesis
          using wf q(2) q(1) q(3) _ _ _ r
          by (rule bracket_seq) (auto simp: appending_steps)
      qed
    qed
  qed
qed

lemma appending_lowerFunction:
  assumes tps: "\<And>l f. typeParameters = Some l \<Longrightarrow> f \<in> set l \<Longrightarrow> appending f"
    and ps: "\<And>f. f \<in> set parameters \<Longrightarrow> appending f"
    and t: "\<And>f. ty = Some f \<Longrightarrow> appending f"
  shows "appending (lowerFunction vm node name typeParameters parameters ty)"
proof (rule appendingI)
  fix p p' assume wf: "wf_program p"
    and run: "lowerFunction vm node name typeParameters parameters ty p = Inr p'"
  obtain p1 symbol where sy: "pushSymbolForRoutine vm (snd name) ST_Function (fst name) p = (p1, symbol)"
    by (cases "pushSymbolForRoutine vm (snd name) ST_Function (fst name) p")
  have "ST_Function \<noteq> ST_TypeVariable" by simp
  note e = pushSymbolForRoutine_effect [OF wf this sy]
  let ?ty = "(case ty of Some t \<Rightarrow> t | None \<Rightarrow> pushOp vm OP_Unknown)"
  have ty': "appending ?ty"
    using t by (cases ty) (auto simp: appending_steps)
  have pars: "appending (seq parameters)"
    using ps by (rule appending_seq)
  show "wf_program p' \<and> extends_program p p'"
  proof (cases "1 < declarations symbol")
    case True
    then have "p' = p1" using run by (simp add: lowerFunction_def sy)
    with e show ?thesis by simp
  next
    case False
    obtain p2 idx where p2: "pushSubroutine (snd name) p1 = Inr (p2, idx)"
      using run False
      by (auto simp: lowerFunction_def sy discard_Inr split: sum.splits option.splits)
    from e False p2 have q: "wf_program p2" "grows p p2"
      "activeSubroutines p2 = activeSubroutines p @ [length (subroutines p)]"
      by blast+
    have F: "\<not> Suc 0 < declarations symbol" using False by simp
    note rest = run F p2
    show ?thesis
    proof (cases typeParameters)
      case None
      have r: "seq ([seq parameters, ?ty, pushOpNode vm OP_Function (Some node)]
                 @ discard (popSubroutine vm) # []) p2 = Inr p'"
        using rest None by (simp add: lowerFunction_def sy discard_def)
      show ?thesis
        using wf q(2) q(1) q(3) _ _ _ r
        by (rule bracket_seq) (auto simp: pars ty' appending_steps)
    next
      case (Some l)
      let ?p3 = "fst (pushSubroutineNameLess vm p2)"
      let ?i = "snd (pushSubroutineNameLess vm p2)"
      let ?fs = "[seq l, seq parameters, ?ty, pushOpNode vm OP_Function (Some node)]"
      let ?gs = "[pushOpNode vm OP_FunctionRef (Some node), lift (pushAddress (of_nat ?i) 0)]"
      have r: "seq ((?fs @ discard (popSubroutine vm) # ?gs) @ [discard (popSubroutine vm)]) ?p3
                 = Inr p'"
        using rest Some by (simp add: lowerFunction_def sy split_beta del: seq.simps)
      then obtain q3 where q3: "seq (?fs @ discard (popSubroutine vm) # ?gs) ?p3 = Inr q3"
        and last: "seq ([] @ discard (popSubroutine vm) # []) q3 = Inr p'"
        unfolding seq_append [of "?fs @ discard (popSubroutine vm) # ?gs"]
        by (auto split: sum.splits)
      note n = pushSubroutineNameLess_effect [OF q(1), of vm]
      then have wf3: "wf_program ?p3" and g3: "grows p2 ?p3"
        and act3: "activeSubroutines ?p3 = activeSubroutines p2 @ [length (subroutines p2)]"
        by simp_all
      have l: "appending (seq l)"
        using tps [OF Some] by (rule appending_seq)
      have inner: "wf_program q3 \<and> extends_program p2 q3"
        using q(1) g3 wf3 act3 _ _ _ q3
        by (rule bracket_seq) (auto simp: l pars ty' appending_steps)
      obtain s where pop: "popSubroutine vm q3 = Inr (p', s)"
        using last by (auto simp: discard_Inr split: sum.splits)
      from inner have "wf_program q3" "extends_program p2 q3" by simp_all
      with wf q(2) q(3) _ show ?thesis
        using pop by (rule bracket) simp
    qed
  qed
qed

subsection \<open>The code of a conditional type\<close>

lemma chain:
  assumes "wf_program q \<and> extends_program p q \<and> getOPs q = getOPs p @ bs"
    and "wf_program r \<and> extends_program q r \<and> getOPs r = getOPs q @ cs"
  shows "wf_program r \<and> extends_program p r \<and> getOPs r = getOPs p @ bs @ cs"
  using assms by (auto intro: extends_trans)

lemma chain_silent:
  assumes "wf_program q \<and> extends_program p q \<and> getOPs q = getOPs p @ bs"
    and "wf_program r \<and> extends_program q r \<and> getOPs r = getOPs q"
  shows "wf_program r \<and> extends_program p r \<and> getOPs r = getOPs p @ bs"
  using assms by (auto intro: extends_trans)

lemma start: "wf_program p \<Longrightarrow> wf_program p \<and> extends_program p p \<and> getOPs p = getOPs p @ []"
  by (simp add: extends_refl)

lemma appending_emits:
  assumes "appending f" and "wf_program p" and "f p = Inr p'"
  shows "\<exists>bs. wf_program p' \<and> extends_program p p' \<and> getOPs p' = getOPs p @ bs"
proof -
  from appendingD [OF assms] have a: "wf_program p'" "extends_program p p'" by simp_all
  from extends_getOPs [OF assms(2) a(2)] obtain bs where "getOPs p' = getOPs p @ bs"
    by (auto simp: prefix_def)
  with a show ?thesis by blast
qed

lemma cond_open_effect:
  assumes wf: "wf_program p" and lc: "appending lc"
    and run: "cond_open vm d lc p = Inr p1"
  shows "wf_program p1 \<and> extends_program p p1
         \<and> (d \<noteq> None \<longrightarrow> (\<exists>b. getOPs p1 = b @ [opcode vm OP_Distribute]))"
proof (cases d)
  case None
  then have "pushSection vm p = Inr p1"
    using run by (auto simp: cond_open_def split: sum.splits)
  from pushSection_silent [OF wf this] None show ?thesis by simp
next
  case (Some i)
  obtain isp nm where i: "i = (isp, nm)" by (cases i)
  obtain q1 q2 q3 q4 where q1: "pushSection vm p = Inr q1" and q2: "lc q1 = Inr q2"
    and q3: "blockTailCall q2 = Inr q3" and q4: "pushFrame vm True q3 = Inr q4"
    and p1: "pushOp vm OP_Distribute (fst (pushSymbol nm ST_TypeVariable isp q4)) = Inr p1"
    using run Some i by (auto simp: cond_open_def lift_def split: sum.splits)
  note a1 = pushSection_silent [OF wf q1]
  then have w1: "wf_program q1" by simp
  note a2 = appendingD [OF lc w1 q2]
  then have w2: "wf_program q2" by simp
  note a3 = blockTailCall_silent [OF w2 q3]
  then have w3: "wf_program q3" by simp
  note a4 = pushFrame_emits [OF w3 q4]
  then have w4: "wf_program q4" by simp
  note a5 = pushSymbol_silent [OF w4, of nm ST_TypeVariable isp]
  then have w5: "wf_program (fst (pushSymbol nm ST_TypeVariable isp q4))" by simp
  note a6 = pushOp_emits [OF w5 p1]
  have "extends_program p p1"
    using a1 a2 a3 a4 a5 a6 by (blast intro: extends_trans)
  with a6 show ?thesis by blast
qed

lemma cond_test_effect:
  assumes wf: "wf_program p1" and lc: "appending lc" and le: "appending le"
    and run: "cond_test vm node d lc le p1 = Inr p2"
  shows "\<exists>z. wf_program p2 \<and> extends_program p1 p2
           \<and> getOPs p2 = getOPs p1 @ (if d \<noteq> None then u32_bytes 0 else []) @ z
                           @ [opcode vm OP_JumpCondition]"
proof -
  let ?q0 = "if d \<noteq> None then pushAddress 0 0 p1 else p1"
  obtain q1 q3 q4 q5 where q1: "pushFrame vm False ?q0 = Inr q1"
    and q3: "lc (setConditional q1) = Inr q3" and q4: "le q3 = Inr q4"
    and q5: "pushOpNode vm OP_Extends (Some node) q4 = Inr q5"
    and p2: "pushOp vm OP_JumpCondition q5 = Inr p2"
    using run by (auto simp: cond_test_def lift_def split: sum.splits if_splits)
  have a0: "wf_program ?q0 \<and> extends_program p1 ?q0
            \<and> getOPs ?q0 = getOPs p1 @ (if d \<noteq> None then u32_bytes 0 else [])"
    using pushAddress_emits [OF wf refl, of 0] wf by (simp add: extends_refl)
  then have w0: "wf_program ?q0" by simp
  note a1 = pushFrame_emits [OF w0 q1]
  then have w1: "wf_program q1" by simp
  note a2 = setConditional_silent [OF w1]
  then have w2: "wf_program (setConditional q1)" by simp
  from appending_emits [OF lc w2 q3] obtain b3
    where a3: "wf_program q3 \<and> extends_program (setConditional q1) q3
               \<and> getOPs q3 = getOPs (setConditional q1) @ b3"
    by blast
  then have w3: "wf_program q3" by simp
  from appending_emits [OF le w3 q4] obtain b4
    where a4: "wf_program q4 \<and> extends_program q3 q4 \<and> getOPs q4 = getOPs q3 @ b4"
    by blast
  then have w4: "wf_program q4" by simp
  note a5 = pushOpNode_emits [OF w4 q5]
  then have w5: "wf_program q5" by simp
  note a6 = pushOp_emits [OF w5 p2]
  note c = chain [OF chain [OF chain [OF chain [OF chain_silent [OF chain [OF a0 a1] a2] a3] a4] a5] a6]
  then have "wf_program p2 \<and> extends_program p1 p2
       \<and> getOPs p2 = getOPs p1 @ (if d \<noteq> None then u32_bytes 0 else [])
             @ ([opcode vm OP_Frame] @ b3 @ b4 @ [opcode vm OP_Extends])
             @ [opcode vm OP_JumpCondition]"
    by simp
  then show ?thesis by blast
qed

lemma cond_true_effect:
  assumes wf: "wf_program p2" and lt: "appending lt"
    and run: "cond_true vm lt p2 = Inr p3"
  shows "\<exists>x. wf_program p3 \<and> extends_program p2 p3
           \<and> getOPs p3 = getOPs p2 @ u32_bytes 0 @ x @ [opcode vm OP_Jump]"
proof -
  obtain q2 q3 q4 where q2: "pushSection vm (pushAddress 0 0 p2) = Inr q2"
    and q3: "lt q2 = Inr q3" and q4: "popSection vm q3 = Inr q4"
    and p3: "pushOp vm OP_Jump (ignoreNextSectionOP q4) = Inr p3"
    using run by (auto simp: cond_true_def lift_def split: sum.splits)
  note a1 = pushAddress_emits [OF wf refl, of 0]
  then have w1: "wf_program (pushAddress 0 0 p2)" by simp
  note a2 = pushSection_silent [OF w1 q2]
  then have w2: "wf_program q2" by simp
  from appending_emits [OF lt w2 q3] obtain x
    where a3: "wf_program q3 \<and> extends_program q2 q3 \<and> getOPs q3 = getOPs q2 @ x"
    by blast
  then have w3: "wf_program q3" by simp
  note a4 = popSection_silent [OF w3 q4]
  then have w4: "wf_program q4" by simp
  note a5 = ignoreNextSectionOP_silent [OF w4]
  then have w5: "wf_program (ignoreNextSectionOP q4)" by simp
  note a6 = pushOp_emits [OF w5 p3]
  note c = chain [OF chain_silent [OF chain_silent [OF chain [OF chain_silent [OF a1 a2] a3] a4] a5] a6]
  then have "wf_program p3 \<and> extends_program p2 p3
       \<and> getOPs p3 = getOPs p2 @ u32_bytes 0 @ x @ [opcode vm OP_Jump]"
    by simp
  then show ?thesis by blast
qed

lemma cond_false_effect:
  assumes wf: "wf_program p4" and lf: "appending lf"
    and run: "cond_false vm lf p4 = Inr p5"
  shows "\<exists>y. wf_program p5 \<and> extends_program p4 p5 \<and> getOPs p5 = getOPs p4 @ y"
proof -
  have "appending (cond_false vm lf)"
    unfolding cond_false_def by (intro appending_Cons appending_Nil appending_steps lf)
  from appending_emits [OF this wf run] show ?thesis .
qed

text \<open>A store through \<open>getOPs\<close> that keeps the code an earlier state had.\<close>

lemma setOPs_patch:
  assumes wf0: "wf_program p0" and wfq: "wf_program q" and ext: "extends_program p0 q"
    and pre: "prefix (getOPs p0) b"
  shows "wf_program (setOPs b q) \<and> extends_program p0 (setOPs b q) \<and> getOPs (setOPs b q) = b"
proof (cases "activeSubroutines q = []")
  case True
  then have "activeSubroutines p0 = []"
    using ext by (simp add: extends_program_def)
  then have "prefix (ops p0) b"
    using pre by (simp add: getOPs_def)
  then show ?thesis
    using True wfq ext
    by (simp add: setOPs_def wf_program_def extends_program_def grows_def getOPs_def)
next
  case False
  let ?i = "last (activeSubroutines q)"
  have i: "?i < length (subroutines q)"
    using wfq False by (rule wf_last)
  have act: "activeSubroutines p0 = activeSubroutines q"
    using ext by (simp add: extends_program_def)
  have pre': "prefix (sub_ops (subroutines p0 ! ?i)) b"
    using pre False act by (simp add: getOPs_def activeSubroutine_def)
  have eq: "setOPs b q = q\<lparr>subroutines := (subroutines q)[?i := (activeSubroutine q)\<lparr>sub_ops := b\<rparr>]\<rparr>"
    using False by (simp add: setOPs_def)
  have "linked (sections ((activeSubroutine q)\<lparr>sub_ops := b\<rparr>))"
    using wf_active_linked [OF wfq False] by simp
  then have "wf_program (setOPs b q)"
    using wfq by (auto simp: eq wf_program_def dest!: set_update_subset_insert [THEN subsetD])
  moreover have "extends_program p0 (setOPs b q)"
    using ext pre' i by (auto simp: eq extends_program_def grows_def nth_list_update)
  moreover have "getOPs (setOPs b q) = b"
    using False i by (simp add: eq getOPs_def activeSubroutine_def)
  ultimately show ?thesis by simp
qed

lemma write_at_mid:
  "length old = length bs \<Longrightarrow> write_at (xs @ old @ ys) (length xs) bs = xs @ bs @ ys"
  by (simp add: write_at_def)

lemma patch:
  assumes wf0: "wf_program p0" and wfq: "wf_program q" and ext: "extends_program p0 q"
    and code: "getOPs q = xs @ old @ ys" and len: "length old = 4"
    and off: "off = length xs" and pos: "xs \<noteq> []" and pre: "prefix (getOPs p0) xs"
  shows "wf_program (pushInt32Address v off q) \<and> extends_program p0 (pushInt32Address v off q)
         \<and> getOPs (pushInt32Address v off q) = xs @ u32_bytes v @ ys"
    and "wf_program (pushAddress v off q) \<and> extends_program p0 (pushAddress v off q)
         \<and> getOPs (pushAddress v off q) = xs @ u32_bytes v @ ys"
proof -
  have w: "write_at (getOPs q) off (u32_bytes v) = xs @ u32_bytes v @ ys"
    unfolding code off by (rule write_at_mid) (simp add: len)
  have n: "off \<noteq> 0" using off pos by simp
  have a: "pushInt32Address v off q = setOPs (xs @ u32_bytes v @ ys) q"
    using n w by (simp add: pushInt32Address_def writeInt32_def)
  have b: "pushAddress v off q = setOPs (xs @ u32_bytes v @ ys) q"
    using n w by (simp add: pushAddress_def writeUint32_def)
  have "prefix (getOPs p0) (xs @ u32_bytes v @ ys)"
    using pre by (rule prefix_prefix)
  note s = setOPs_patch [OF wf0 wfq ext this]
  show "wf_program (pushInt32Address v off q) \<and> extends_program p0 (pushInt32Address v off q)
         \<and> getOPs (pushInt32Address v off q) = xs @ u32_bytes v @ ys"
    unfolding a by (rule s)
  show "wf_program (pushAddress v off q) \<and> extends_program p0 (pushAddress v off q)
         \<and> getOPs (pushAddress v off q) = xs @ u32_bytes v @ ys"
    unfolding b by (rule s)
qed

lemma cond_close_effect:
  assumes wf0: "wf_program p" and wf5: "wf_program p5" and ext: "extends_program p p5"
    and pre: "prefix (getOPs p) P1"
    and code: "getOPs p5 = P1 @ d4 @ z @ [jc] @ u32_bytes 0 @ x @ [j] @ u32_bytes 0 @ y"
    and d4: "d4 = (if d \<noteq> None then u32_bytes 0 else [])"
    and P1: "d \<noteq> None \<longrightarrow> P1 \<noteq> []"
    and ip1: "ip1 = (if d \<noteq> None then length P1 else 0)"
    and ip2: "ip2 = length (P1 @ d4 @ z @ [jc])"
    and ip3: "ip3 = length (P1 @ d4 @ z @ [jc] @ u32_bytes 0 @ x @ [j])"
    and ip5: "ip5 = length (getOPs p5)"
    and run: "cond_close vm d ip1 ip2 ip2 ip3 fp ip5 p5 = Inr p'"
  shows "wf_program p' \<and> extends_program p p'
         \<and> getOPs p' = P1 @ (if d \<noteq> None then u32_bytes (of_nat ip5 - of_nat ip1 + 6) else [])
               @ z @ [jc] @ u32_bytes (of_nat fp - of_nat ip2) @ x @ [j]
               @ u32_bytes (of_nat ip5 - of_nat ip3 + 1) @ y
               @ (if d \<noteq> None
                  then opcode vm OP_FrameReturnJump
                         # u32_bytes (- (of_nat (ip5 + 1) - of_nat ip1))
                  else [opcode vm OP_FrameEnd])"
proof -
  let ?v1 = "of_nat fp - of_nat ip2 :: 32 word"
  let ?v2 = "of_nat ip5 - of_nat ip3 + 1 :: 32 word"
  let ?r1 = "pushInt32Address ?v1 ip2 p5"
  let ?r2 = "pushInt32Address ?v2 ip3 ?r1"
  have c5: "getOPs p5 = (P1 @ d4 @ z @ [jc]) @ u32_bytes 0 @ (x @ [j] @ u32_bytes 0 @ y)"
    using code by simp
  have pre2: "prefix (getOPs p) (P1 @ d4 @ z @ [jc])"
    using pre by (rule prefix_prefix)
  have a1: "wf_program ?r1 \<and> extends_program p ?r1
            \<and> getOPs ?r1 = (P1 @ d4 @ z @ [jc]) @ u32_bytes ?v1 @ (x @ [j] @ u32_bytes 0 @ y)"
    using wf0 wf5 ext c5 _ ip2 _ pre2 by (rule patch(1)) simp_all
  then have w1: "wf_program ?r1" and e1: "extends_program p ?r1"
    and c1: "getOPs ?r1 = (P1 @ d4 @ z @ [jc] @ u32_bytes ?v1 @ x @ [j]) @ u32_bytes 0 @ y"
    by simp_all
  have ip3': "ip3 = length (P1 @ d4 @ z @ [jc] @ u32_bytes ?v1 @ x @ [j])"
    using ip3 by simp
  have pre3: "prefix (getOPs p) (P1 @ d4 @ z @ [jc] @ u32_bytes ?v1 @ x @ [j])"
    using pre by (rule prefix_prefix)
  have a2: "wf_program ?r2 \<and> extends_program p ?r2
            \<and> getOPs ?r2 = (P1 @ d4 @ z @ [jc] @ u32_bytes ?v1 @ x @ [j]) @ u32_bytes ?v2 @ y"
    using wf0 w1 e1 c1 _ ip3' _ pre3 by (rule patch(1)) simp_all
  then have w2: "wf_program ?r2" and e2: "extends_program p ?r2"
    and c2: "getOPs ?r2 = P1 @ d4 @ (z @ [jc] @ u32_bytes ?v1 @ x @ [j] @ u32_bytes ?v2 @ y)"
    by simp_all
  have l5: "ip5 = length (getOPs ?r2)"
    using c2 code ip5 by simp
  show ?thesis
  proof (cases "d = None")
    case True
    obtain r4 where r4: "popFrame vm (ignoreNextSectionOP ?r2) = Inr r4"
      and p': "popSection vm r4 = Inr p'"
      using run True by (auto simp: cond_close_def lift_def split: sum.splits)
    note b3 = ignoreNextSectionOP_silent [OF w2]
    then have w3: "wf_program (ignoreNextSectionOP ?r2)" by simp
    note b4 = popFrame_emits [OF w3 r4]
    then have w4: "wf_program r4" by simp
    note b5 = popSection_silent [OF w4 p']
    have "extends_program p p'"
      using e2 b3 b4 b5 by (blast intro: extends_trans)
    moreover have "getOPs p' = getOPs ?r2 @ [opcode vm OP_FrameEnd]"
      using b3 b4 b5 by simp
    ultimately show ?thesis
      using b5 True c2 d4 by simp
  next
    case False
    let ?v3 = "of_nat ip5 - of_nat ip1 + 6 :: 32 word"
    let ?r3 = "pushAddress ?v3 ip1 ?r2"
    have c2': "getOPs ?r2 = P1 @ u32_bytes 0 @ (z @ [jc] @ u32_bytes ?v1 @ x @ [j] @ u32_bytes ?v2 @ y)"
      using c2 d4 False by simp
    have i1: "ip1 = length P1" using ip1 False by simp
    have ne: "P1 \<noteq> []" using P1 False by simp
    have a3: "wf_program ?r3 \<and> extends_program p ?r3
              \<and> getOPs ?r3 = P1 @ u32_bytes ?v3 @ (z @ [jc] @ u32_bytes ?v1 @ x @ [j] @ u32_bytes ?v2 @ y)"
      using wf0 w2 e2 c2' _ i1 ne pre by (rule patch(2)) simp
    then have w3: "wf_program ?r3" and e3: "extends_program p ?r3" by simp_all
    obtain r5 where r5: "pushOp vm OP_FrameReturnJump (ignoreNextSectionOP ?r3) = Inr r5"
      and p': "popSection vm (popFrameImplicit
                 (pushInt32Address (- (of_nat (prog_ip r5) - of_nat ip1)) 0 r5)) = Inr p'"
      using run False by (auto simp: cond_close_def lift_def split: sum.splits)
    let ?r6 = "pushInt32Address (- (of_nat (prog_ip r5) - of_nat ip1)) 0 r5"
    note b4 = ignoreNextSectionOP_silent [OF w3]
    then have w4: "wf_program (ignoreNextSectionOP ?r3)" by simp
    note b5 = pushOp_emits [OF w4 r5]
    then have w5: "wf_program r5" by simp
    note b6 = pushInt32Address_emits [OF w5 refl, of "- (of_nat (prog_ip r5) - of_nat ip1)"]
    then have w6: "wf_program ?r6" by simp
    note b7 = popFrameImplicit_silent [OF w6]
    then have w7: "wf_program (popFrameImplicit ?r6)" by simp
    note b8 = popSection_silent [OF w7 p']
    have ip: "prog_ip r5 = ip5 + 1"
      using b5 b4 a3 l5 c2 d4 False by (simp add: prog_ip_def)
    have "extends_program p p'"
      using e3 b4 b5 b6 b7 b8 by (blast intro: extends_trans)
    moreover have "getOPs p' = getOPs ?r3 @ [opcode vm OP_FrameReturnJump]
                     @ u32_bytes (- (of_nat (ip5 + 1) - of_nat ip1))"
      using b4 b5 b6 b7 b8 ip by simp
    ultimately show ?thesis
      using b8 False a3 by simp
  qed
qed

lemma conditional_code:
  assumes wf: "wf_program p" and lc: "appending lc" and le: "appending le"
    and lt: "appending lt" and lf: "appending lf"
    and run: "lowerConditionalType vm node d lc le lt lf p = Inr p'"
  shows "\<exists>p1 p2 p3 p5 z x y.
      cond_open vm d lc p = Inr p1
    \<and> cond_test vm node d lc le p1 = Inr p2
    \<and> cond_true vm lt p2 = Inr p3
    \<and> cond_false vm lf (pushAddress 0 0 p3) = Inr p5
    \<and> wf_program p' \<and> extends_program p p'
    \<and> (d \<noteq> None \<longrightarrow> (\<exists>b. getOPs p1 = b @ [opcode vm OP_Distribute]))
    \<and> getOPs p2 = getOPs p1 @ (if d \<noteq> None then u32_bytes 0 else []) @ z
                    @ [opcode vm OP_JumpCondition]
    \<and> getOPs p3 = getOPs p2 @ u32_bytes 0 @ x @ [opcode vm OP_Jump]
    \<and> getOPs p5 = getOPs p3 @ u32_bytes 0 @ y
    \<and> prog_ip (pushAddress 0 0 p3) + 1 = prog_ip p3 + 4 + 1
    \<and> getOPs p' = getOPs p1
         @ (if d \<noteq> None then u32_bytes (of_nat (prog_ip p5) - of_nat (prog_ip p1) + 6) else [])
         @ z @ [opcode vm OP_JumpCondition]
         @ u32_bytes (of_nat (prog_ip p3 + 4 + 1) - of_nat (prog_ip p2))
         @ x @ [opcode vm OP_Jump]
         @ u32_bytes (of_nat (prog_ip p5) - of_nat (prog_ip p3) + 1) @ y
         @ (if d \<noteq> None
            then opcode vm OP_FrameReturnJump
                   # u32_bytes (- (of_nat (prog_ip p5 + 1) - of_nat (prog_ip p1)))
            else [opcode vm OP_FrameEnd])"
proof -
  obtain p1 p2 p3 p5 where r1: "cond_open vm d lc p = Inr p1"
    and r2: "cond_test vm node d lc le p1 = Inr p2"
    and r3: "cond_true vm lt p2 = Inr p3"
    and r5: "cond_false vm lf (pushAddress 0 0 p3) = Inr p5"
    and close: "cond_close vm d (if d \<noteq> None then prog_ip p1 else 0) (prog_ip p2) (prog_ip p2)
                  (prog_ip p3) (prog_ip (pushAddress 0 0 p3) + 1) (prog_ip p5) p5 = Inr p'"
    using run by (auto simp: lowerConditionalType_def Let_def split: sum.splits)
  note o = cond_open_effect [OF wf lc r1]
  then have w1: "wf_program p1" and e1: "extends_program p p1" by simp_all
  from cond_test_effect [OF w1 lc le r2] obtain z
    where t: "wf_program p2 \<and> extends_program p1 p2
              \<and> getOPs p2 = getOPs p1 @ (if d \<noteq> None then u32_bytes 0 else []) @ z
                           @ [opcode vm OP_JumpCondition]"
    by blast
  then have w2: "wf_program p2" and e2: "extends_program p1 p2" by simp_all
  from cond_true_effect [OF w2 lt r3] obtain x
    where tr: "wf_program p3 \<and> extends_program p2 p3
               \<and> getOPs p3 = getOPs p2 @ u32_bytes 0 @ x @ [opcode vm OP_Jump]"
    by blast
  then have w3: "wf_program p3" and e3: "extends_program p2 p3" by simp_all
  note f4 = pushAddress_emits [OF w3 refl, of 0]
  then have w4: "wf_program (pushAddress 0 0 p3)"
    and e4: "extends_program p3 (pushAddress 0 0 p3)" by simp_all
  from cond_false_effect [OF w4 lf r5] obtain y
    where f: "wf_program p5 \<and> extends_program (pushAddress 0 0 p3) p5
              \<and> getOPs p5 = getOPs (pushAddress 0 0 p3) @ y"
    by blast
  then have w5: "wf_program p5" and e5: "extends_program (pushAddress 0 0 p3) p5" by simp_all
  have ext: "extends_program p p5"
    using e1 e2 e3 e4 e5 by (blast intro: extends_trans)
  have pre: "prefix (getOPs p) (getOPs p1)"
    using wf e1 by (rule extends_getOPs)
  have code: "getOPs p5 = getOPs p1 @ (if d \<noteq> None then u32_bytes 0 else []) @ z
                @ [opcode vm OP_JumpCondition] @ u32_bytes 0 @ x @ [opcode vm OP_Jump]
                @ u32_bytes 0 @ y"
    using t tr f4 f by simp
  have P1: "d \<noteq> None \<longrightarrow> getOPs p1 \<noteq> []"
    using o by auto
  have fp: "prog_ip (pushAddress 0 0 p3) + 1 = prog_ip p3 + 4 + 1"
    using f4 by (simp add: prog_ip_def)
  have ip1: "(if d \<noteq> None then prog_ip p1 else 0) = (if d \<noteq> None then length (getOPs p1) else 0)"
    by (simp add: prog_ip_def)
  have ip2: "prog_ip p2 = length (getOPs p1 @ (if d \<noteq> None then u32_bytes 0 else []) @ z
                @ [opcode vm OP_JumpCondition])"
    using t by (simp add: prog_ip_def)
  have ip3: "prog_ip p3 = length (getOPs p1 @ (if d \<noteq> None then u32_bytes 0 else []) @ z
                @ [opcode vm OP_JumpCondition] @ u32_bytes 0 @ x @ [opcode vm OP_Jump])"
    using t tr by (simp add: prog_ip_def)
  have ip5: "prog_ip p5 = length (getOPs p5)"
    by (simp add: prog_ip_def)
  note c = cond_close_effect [OF wf w5 ext pre code refl P1 ip1 ip2 ip3 ip5 close]
  have fin: "getOPs p' = getOPs p1
         @ (if d \<noteq> None then u32_bytes (of_nat (prog_ip p5) - of_nat (prog_ip p1) + 6) else [])
         @ z @ [opcode vm OP_JumpCondition]
         @ u32_bytes (of_nat (prog_ip p3 + 4 + 1) - of_nat (prog_ip p2))
         @ x @ [opcode vm OP_Jump]
         @ u32_bytes (of_nat (prog_ip p5) - of_nat (prog_ip p3) + 1) @ y
         @ (if d \<noteq> None
            then opcode vm OP_FrameReturnJump
                   # u32_bytes (- (of_nat (prog_ip p5 + 1) - of_nat (prog_ip p1)))
            else [opcode vm OP_FrameEnd])"
    using c unfolding fp by (cases "d = None") simp_all
  have c5: "getOPs p5 = getOPs p3 @ u32_bytes 0 @ y"
    using f f4 by simp
  show ?thesis
  proof (intro exI conjI)
    show "cond_open vm d lc p = Inr p1" by (rule r1)
    show "cond_test vm node d lc le p1 = Inr p2" by (rule r2)
    show "cond_true vm lt p2 = Inr p3" by (rule r3)
    show "cond_false vm lf (pushAddress 0 0 p3) = Inr p5" by (rule r5)
    show "wf_program p'" using c by simp
    show "extends_program p p'" using c by simp
    show "d \<noteq> None \<longrightarrow> (\<exists>b. getOPs p1 = b @ [opcode vm OP_Distribute])" using o by simp
    show "getOPs p2 = getOPs p1 @ (if d \<noteq> None then u32_bytes 0 else []) @ z
                    @ [opcode vm OP_JumpCondition]" using t by simp
    show "getOPs p3 = getOPs p2 @ u32_bytes 0 @ x @ [opcode vm OP_Jump]" using tr by simp
    show "getOPs p5 = getOPs p3 @ u32_bytes 0 @ y" by (rule c5)
    show "prog_ip (pushAddress 0 0 p3) + 1 = prog_ip p3 + 4 + 1" by (rule fp)
    show "getOPs p' = getOPs p1
         @ (if d \<noteq> None then u32_bytes (of_nat (prog_ip p5) - of_nat (prog_ip p1) + 6) else [])
         @ z @ [opcode vm OP_JumpCondition]
         @ u32_bytes (of_nat (prog_ip p3 + 4 + 1) - of_nat (prog_ip p2))
         @ x @ [opcode vm OP_Jump]
         @ u32_bytes (of_nat (prog_ip p5) - of_nat (prog_ip p3) + 1) @ y
         @ (if d \<noteq> None
            then opcode vm OP_FrameReturnJump
                   # u32_bytes (- (of_nat (prog_ip p5 + 1) - of_nat (prog_ip p1)))
            else [opcode vm OP_FrameEnd])" by (rule fin)
  qed
qed

lemma appending_lowerConditionalType:
  assumes "appending lc" and "appending le" and "appending lt" and "appending lf"
  shows "appending (lowerConditionalType vm node d lc le lt lf)"
proof (rule appendingI)
  fix p p' assume "wf_program p" and "lowerConditionalType vm node d lc le lt lf p = Inr p'"
  from conditional_code [OF this(1) assms this(2)]
  show "wf_program p' \<and> extends_program p p'" by blast
qed

lemmas appending_lowerings =
  appending_lowerTypeReference appending_lowerIdentifier appending_lowerAssignment
  appending_lowerTypeAlias appending_lowerTypeParameter appending_lowerVariable
  appending_lowerFunction appending_lowerConditionalType appending_templatePiece
  appending_pushStringLiteral appending_seq_map

lemma appending_handle: "appending (handle vm n)"
proof (induction vm n rule: handle.induct)
  case (16 vm sp head templateSpans)
  have spans: "appending (case sub of
                      TemplateLiteralTypeSpan ssp ty literal \<Rightarrow>
                        seq [handle vm ty, templatePiece vm ssp literal]
                    | _ \<Rightarrow> fail UndefinedBehaviour)" if "sub \<in> set templateSpans" for sub
  proof (cases sub)
    case (TemplateLiteralTypeSpan ssp ty literal)
    have "appending (handle vm ty)"
      using that TemplateLiteralTypeSpan by (rule 16)
    then show ?thesis
      unfolding TemplateLiteralTypeSpan node.case
      by (intro appending_Cons appending_Nil appending_templatePiece)
  qed (simp_all add: appending_fail)
  have hd: "appending (case snd head of
             Some t \<Rightarrow>
               if t \<noteq> []
               then seq [pushOpNode vm OP_StringLiteral (Some (fst head)), lift (pushStorage t)]
               else Inr
           | None \<Rightarrow> Inr)"
    by (cases "snd head")
       (auto simp del: seq.simps intro!: appending_Cons appending_Nil appending_steps)
  show ?case
    unfolding handle.simps
    by (intro appending_Cons appending_Nil appending_steps appending_seq_map hd spans)
next
  case (26 vm sp name heritageClauses members)
  have h: "appending (case h of
                           HeritageClause hsp extendsToken types \<Rightarrow>
                             if extendsToken then seq (map (handle vm) types) else Inr
                         | _ \<Rightarrow> fail UndefinedBehaviour)"
    if hs: "heritageClauses = Some hs" and h: "h \<in> set hs" for h hs
  proof (cases h)
    case (HeritageClause hsp extendsToken types)
    have "appending (seq (map (handle vm) types))" if extendsToken
    proof (rule appending_seq_map)
      fix t assume "t \<in> set types"
      with hs h HeritageClause that show "appending (handle vm t)" by (rule 26(1))
    qed
    then show ?thesis
      unfolding HeritageClause node.case by (simp add: appending_Inr)
  qed (simp_all add: appending_fail)
  have m: "appending (handle vm x)" if "x \<in> set members" for x
    using that by (rule 26(2))
  have hs: "appending (case heritageClauses of
             None \<Rightarrow> Inr
           | Some hs \<Rightarrow>
               seq (map (\<lambda>h. case h of
                           HeritageClause hsp extendsToken types \<Rightarrow>
                             if extendsToken then seq (map (handle vm) types) else Inr
                         | _ \<Rightarrow> fail UndefinedBehaviour) hs))"
  proof (cases heritageClauses)
    case None
    then show ?thesis by (simp add: appending_Inr)
  next
    case (Some l)
    show ?thesis
      unfolding Some option.case by (rule appending_seq_map) (rule h [OF Some])
  qed
  show ?case
    unfolding handle.simps
    by (intro appending_Cons appending_Nil appending_steps appending_seq_map hs m)
next
  case (39 vm sp elements)
  have all: "appending (handle vm e)" if "e \<in> set elements" for e
    by (cases e; ((rule 39 [OF that], assumption) | simp add: appending_Inr))
  have member: "appending (case e of
                      NamedTupleMember tsp ty dotDotDotToken questionToken \<Rightarrow>
                        seq [handle vm ty,
                             (if dotDotDotToken then pushOp vm OP_Rest else Inr),
                             pushOpNode vm OP_TupleMember (Some tsp),
                             (if questionToken then pushOp vm OP_Optional else Inr)]
                    | OptionalType osp ty \<Rightarrow>
                        seq [handle vm ty, pushOpNode vm OP_TupleMember (Some osp),
                             pushOp vm OP_Optional]
                    | _ \<Rightarrow> seq [handle vm e, pushOpNode vm OP_TupleMember (Some (node_span e))])"
    if e: "e \<in> set elements" for e
  proof (cases e)
    case (NamedTupleMember tsp ty d q)
    have "appending (handle vm ty)"
      using e NamedTupleMember by (rule 39)
    then show ?thesis
      unfolding NamedTupleMember node.case
      by (intro appending_Cons appending_Nil appending_steps appending_if)
  next
    case (OptionalType osp ty)
    have "appending (handle vm ty)"
      using e OptionalType by (rule 39)
    then show ?thesis
      unfolding OptionalType node.case
      by (intro appending_Cons appending_Nil appending_steps)
  qed (insert all [OF e],
       auto simp del: seq.simps handle.simps intro!: appending_Cons appending_Nil appending_steps)
  show ?case
    unfolding handle.simps
    by (intro appending_Cons appending_Nil appending_steps appending_seq_map member)
qed (auto simp del: seq.simps
       intro!: appending_Cons appending_Nil appending_steps appending_lowerings
       split: option.splits)

text \<open>
  The states the compiler reaches are well-formed: the new program is, and \<^verbatim>\<open>handle\<close> keeps
  it so. \<^verbatim>\<open>popSubroutine\<close> hands \<^verbatim>\<open>optimise\<close> a subroutine with linked sections.
\<close>

lemma wf_program_new: "wf_program Program_new"
  by (simp add: wf_program_def Program_new_def)

lemma handle_keeps_wf: "wf_program p \<Longrightarrow> handle vm n p = Inr p' \<Longrightarrow> wf_program p'"
  using appendingD [OF appending_handle] by blast

lemma compiled_wf: "compileSourceFile vm source = Inr p \<Longrightarrow> wf_program p"
  unfolding compileSourceFile_def using wf_program_new by (rule handle_keeps_wf)

lemma compiled_sections_linked:
  "compileSourceFile vm source = Inr p \<Longrightarrow> s \<in> set (subroutines p) \<Longrightarrow> linked (sections s)"
  using compiled_wf [of vm source p] by (simp add: wf_program_def)

lemma optimise_input_linked:
  assumes "wf_program p" and "activeSubroutines p \<noteq> []"
    and "sub_end (activeSubroutine (popFrameImplicit p)) = Inr s"
  shows "linked (sections s)"
proof -
  have w: "wf_program (popFrameImplicit p)"
    using popFrameImplicit_silent [OF assms(1)] by simp
  have a: "activeSubroutines (popFrameImplicit p) \<noteq> []"
    using assms(2) by (simp add: popFrameImplicit_fields)
  from sub_end_keeps [OF assms(3) wf_active_linked [OF w a]] show ?thesis by simp
qed

subsection \<open>The offsets of a conditional type\<close>


lemma nth_mid: "(xs @ a # ys) ! (length (xs @ [a]) - 1) = a"
  by simp




end
